theory Spec2Isabelle
  imports Main
begin

section \<open>The task list of \<^verbatim>\<open>todo.c\<close>\<close>

text \<open>
  \<^verbatim>\<open>todo.c\<close> keeps its tasks in a singly linked list of \<^verbatim>\<open>struct Task\<close> nodes that hangs
  off one \<^verbatim>\<open>head\<close> pointer. No node is ever shared between two lists, so the list that
  starts at \<^verbatim>\<open>head\<close> is modelled by the HOL list of its nodes, in link order; \<^verbatim>\<open>NULL\<close> is
  the empty list and \<^verbatim>\<open>current->next\<close> is the tail. Each function that writes through
  \<^verbatim>\<open>head\<close> or through a node returns the list afterwards.

  A \<^verbatim>\<open>char\<close> array holding a C string is modelled by the bytes before its terminating
  NUL. The field \<^verbatim>\<open>completed\<close> is a C \<^verbatim>\<open>int\<close>; the program only ever stores 0 and 1 in it.
  \<^verbatim>\<open>malloc\<close> is taken to succeed (on failure \<^verbatim>\<open>createTask\<close> ends the process with
  \<^verbatim>\<open>exit(1)\<close>).
\<close>

definition MAX_TASK_LEN :: nat where
  "MAX_TASK_LEN = 256"

text \<open>The range of a C \<^verbatim>\<open>int\<close> (32 bits).\<close>

definition INT_MAX :: int where
  "INT_MAX = 2147483647"

definition INT_MIN :: int where
  "INT_MIN = - 2147483648"

record Task =
  description :: string
  completed :: int

text \<open>The bytes a C function sees behind a \<^verbatim>\<open>const char*\<close>: everything before the first NUL.\<close>

definition cstr :: "string \<Rightarrow> string" where
  "cstr s = takeWhile (\<lambda>c. c \<noteq> CHR 0x00) s"

text \<open>What the functions print, as a value returned beside the list.\<close>

datatype message =
    TaskNotFound int      \<comment> \<open>\<^verbatim>\<open>Error: Task %d not found.\<close>\<close>
  | MarkedComplete int    \<comment> \<open>\<^verbatim>\<open>Task %d marked as complete.\<close>\<close>
  | ListEmpty             \<comment> \<open>\<^verbatim>\<open>Error: List is empty, nothing to delete.\<close>\<close>
  | TaskDeleted int       \<comment> \<open>\<^verbatim>\<open>Task %d deleted.\<close>\<close>

subsection \<open>createTask and addTask\<close>

text \<open>
  \<^verbatim>\<open>strncpy(newTask->description, description, MAX_TASK_LEN - 1)\<close> copies at most 255 bytes
  of the string, and byte 255 of the array is set to NUL.
\<close>

definition createTask :: "string \<Rightarrow> Task" where
  "createTask d = \<lparr>description = take (MAX_TASK_LEN - 1) (cstr d), completed = 0\<rparr>"

text \<open>The loop of \<^verbatim>\<open>addTask\<close>: walk to the node whose \<^verbatim>\<open>next\<close> is \<^verbatim>\<open>NULL\<close> and link the new node.\<close>

fun link_last :: "Task list \<Rightarrow> Task \<Rightarrow> Task list" where
  "link_last [] newTask = [newTask]"
| "link_last [current] newTask = [current, newTask]"
| "link_last (current # nxt # rest) newTask = current # link_last (nxt # rest) newTask"

definition addTask :: "Task list \<Rightarrow> string \<Rightarrow> Task list" where
  "addTask head d =
     (let newTask = createTask d
      in case head of
           [] \<Rightarrow> [newTask]
         | _ # _ \<Rightarrow> link_last head newTask)"

subsection \<open>markComplete\<close>

text \<open>
  \<^verbatim>\<open>while (current != NULL && count < index) { current = current->next; count++; }\<close>
  followed by the test \<^verbatim>\<open>current == NULL\<close>. The walk returns the list from \<^verbatim>\<open>current\<close> on
  with the found node marked, or \<open>None\<close> when \<^verbatim>\<open>current\<close> became \<^verbatim>\<open>NULL\<close>. The counter
  stays below \<^verbatim>\<open>index\<close>, so it never overflows and is a plain integer here.
\<close>

fun mark_walk :: "Task list \<Rightarrow> int \<Rightarrow> int \<Rightarrow> Task list option" where
  "mark_walk [] count index = None"
| "mark_walk (current # rest) count index =
     (if count < index then map_option ((#) current) (mark_walk rest (count + 1) index)
      else Some (current\<lparr>completed := 1\<rparr> # rest))"

definition markComplete :: "Task list \<Rightarrow> int \<Rightarrow> message \<times> Task list" where
  "markComplete head index =
     (case mark_walk head 1 index of
        None \<Rightarrow> (TaskNotFound index, head)
      | Some head' \<Rightarrow> (MarkedComplete index, head'))"

subsection \<open>deleteTask\<close>

text \<open>
  \<^verbatim>\<open>while (current != NULL && count < index - 1)\<close>, then the test
  \<^verbatim>\<open>current == NULL || current->next == NULL\<close>, then the unlinking of \<^verbatim>\<open>current->next\<close>.

  \<open>minus_one\<close> is the C expression \<^verbatim>\<open>index - 1\<close>. For \<^verbatim>\<open>index = INT_MIN\<close> the subtraction
  overflows, which C leaves undefined; the compiled program wraps round to \<^verbatim>\<open>INT_MAX\<close>, and
  the model follows it. Everywhere else it is the integer below.
\<close>

definition minus_one :: "int \<Rightarrow> int" where
  "minus_one index = (if index = INT_MIN then INT_MAX else index - 1)"

fun delete_walk :: "Task list \<Rightarrow> int \<Rightarrow> int \<Rightarrow> Task list option" where
  "delete_walk [] count index = None"
| "delete_walk (current # rest) count index =
     (if count < minus_one index then map_option ((#) current) (delete_walk rest (count + 1) index)
      else (case rest of
              [] \<Rightarrow> None
            | temp # after \<Rightarrow> Some (current # after)))"

definition deleteTask :: "Task list \<Rightarrow> int \<Rightarrow> message \<times> Task list" where
  "deleteTask head index =
     (case head of
        [] \<Rightarrow> (ListEmpty, [])
      | first # rest \<Rightarrow>
          if index = 1 then (TaskDeleted 1, rest)
          else (case delete_walk head 1 index of
                  None \<Rightarrow> (TaskNotFound index, head)
                | Some head' \<Rightarrow> (TaskDeleted index, head')))"

subsection \<open>The task file: saveTasks\<close>

text \<open>
  The file \<^verbatim>\<open>tasks.txt\<close> is modelled by its bytes; \<open>None\<close> stands for a file that
  \<^verbatim>\<open>fopen\<close> cannot open. \<^verbatim>\<open>printf("%d")\<close> writes a minus sign for a negative number and
  then the decimal digits without leading zeros.
\<close>

abbreviation newline :: char where
  "newline \<equiv> CHR 0x0A"

fun digits :: "nat \<Rightarrow> string" where
  "digits n =
     (if n < 10 then [''0123456789'' ! n]
      else digits (n div 10) @ [''0123456789'' ! (n mod 10)])"

definition fmt_d :: "int \<Rightarrow> string" where
  "fmt_d i = (if i < 0 then CHR ''-'' # digits (nat (- i)) else digits (nat i))"

text \<open>
  The loop of \<^verbatim>\<open>saveTasks\<close>: one \<^verbatim>\<open>fprintf(file, "%d,%s\n", ...)\<close> for each node.
\<close>

fun save_loop :: "Task list \<Rightarrow> string" where
  "save_loop [] = []"
| "save_loop (current # rest) =
     fmt_d (completed current) @ '','' @ description current @ [newline] @ save_loop rest"

text \<open>
  \<open>writable\<close> says whether \<^verbatim>\<open>fopen(FILENAME, "w")\<close> succeeds; \<open>file\<close> is the file before
  the call and the result is the file after it.
\<close>

definition saveTasks :: "bool \<Rightarrow> string option \<Rightarrow> Task list \<Rightarrow> string option" where
  "saveTasks writable file head = (if \<not> writable then file else Some (save_loop head))"

subsection \<open>The task file: loadTasks\<close>

text \<open>
  \<^verbatim>\<open>fgets(lineBuffer, sz, file)\<close> reads at most \<open>sz - 1\<close> bytes and stops after a newline.
  The result is the bytes read and the rest of the file. (At the end of the file it
  returns \<^verbatim>\<open>NULL\<close>; the loop below tests that first.)
\<close>

definition fgets :: "nat \<Rightarrow> string \<Rightarrow> string \<times> string" where
  "fgets sz s =
     (let n = min (sz - 1) (Suc (length (takeWhile (\<lambda>c. c \<noteq> newline) s)))
      in (take n s, drop n s))"

text \<open>
  \<^verbatim>\<open>sscanf(lineBuffer, "%d,%[^\n]", &completed, description)\<close>. The directive \<^verbatim>\<open>%d\<close>
  skips white space, takes an optional sign and then the longest run of decimal digits,
  which must not be empty. A value that does not fit the \<^verbatim>\<open>int\<close> it is stored in is
  undefined behaviour in C.
\<close>

definition isspace :: "char \<Rightarrow> bool" where
  "isspace c = (c \<in> {CHR '' '', CHR 0x09, CHR 0x0A, CHR 0x0B, CHR 0x0C, CHR 0x0D})"

definition isdigit :: "char \<Rightarrow> bool" where
  "isdigit c = (c \<in> set ''0123456789'')"

definition digit_val :: "char \<Rightarrow> nat" where
  "digit_val c = of_char c - 48"

definition decimal :: "string \<Rightarrow> nat" where
  "decimal ds = foldl (\<lambda>a c. 10 * a + digit_val c) 0 ds"

datatype 'a conversion =
    Undefined       \<comment> \<open>undefined behaviour in C\<close>
  | Mismatch        \<comment> \<open>the input does not match the directive\<close>
  | Converted 'a

definition signed_value :: "bool \<Rightarrow> string \<Rightarrow> int" where
  "signed_value neg ds = (if neg then - int (decimal ds) else int (decimal ds))"

definition scan_d :: "string \<Rightarrow> (int \<times> string) conversion" where
  "scan_d s =
     (let s1 = dropWhile isspace s;
          neg = (s1 \<noteq> [] \<and> hd s1 = CHR ''-'');
          s2 = (if s1 \<noteq> [] \<and> (hd s1 = CHR ''-'' \<or> hd s1 = CHR ''+'') then tl s1 else s1);
          ds = takeWhile isdigit s2
      in if ds = [] then Mismatch
         else if signed_value neg ds < INT_MIN \<or> INT_MAX < signed_value neg ds then Undefined
         else Converted (signed_value neg ds, dropWhile isdigit s2))"

text \<open>
  After \<^verbatim>\<open>%d\<close> the format asks for a comma and then, with \<^verbatim>\<open>%[^\n]\<close>, for a run of at
  least one byte other than newline, which is stored with a closing NUL in
  \<^verbatim>\<open>char description[MAX_TASK_LEN]\<close>. The directive has no field width: a run of 256 bytes
  or more is written past the end of the array, which is undefined behaviour.
  \<open>ScanFields\<close> is the return value 2; \<open>ScanFailed\<close> is any other return value.
\<close>

datatype scanned =
    ScanUndefined
  | ScanFailed
  | ScanFields int string

definition sscanf_line :: "string \<Rightarrow> scanned" where
  "sscanf_line lineBuffer =
     (case scan_d (cstr lineBuffer) of
        Undefined \<Rightarrow> ScanUndefined
      | Mismatch \<Rightarrow> ScanFailed
      | Converted (completed', r) \<Rightarrow>
          (case r of
             [] \<Rightarrow> ScanFailed
           | c # r' \<Rightarrow>
               if c \<noteq> CHR '','' then ScanFailed
               else (let d = takeWhile (\<lambda>c. c \<noteq> newline) r'
                     in if d = [] then ScanFailed
                        else if MAX_TASK_LEN \<le> length d then ScanUndefined
                        else ScanFields completed' d)))"

text \<open>
  \<^verbatim>\<open>while (current->next != NULL) current = current->next; current->completed = 1;\<close>
  starting from \<^verbatim>\<open>*head\<close>. On the empty list the first test would read through \<^verbatim>\<open>NULL\<close>;
  this is \<open>None\<close> (it is not reached: \<^verbatim>\<open>addTask\<close> has just linked a node).
\<close>

fun mark_last :: "Task list \<Rightarrow> Task list option" where
  "mark_last [] = None"
| "mark_last [current] = Some [current\<lparr>completed := 1\<rparr>]"
| "mark_last (current # nxt # rest) = map_option ((#) current) (mark_last (nxt # rest))"

text \<open>The body of the reading loop, for one buffer filled by \<^verbatim>\<open>fgets\<close>; \<open>None\<close> is undefined behaviour.\<close>

definition load_line :: "Task list \<Rightarrow> string \<Rightarrow> Task list option" where
  "load_line head lineBuffer =
     (case sscanf_line lineBuffer of
        ScanUndefined \<Rightarrow> None
      | ScanFailed \<Rightarrow> Some head
      | ScanFields completed' d \<Rightarrow>
          (let head' = addTask head d
           in if completed' \<noteq> 0 then mark_last head' else Some head'))"

function load_loop :: "string \<Rightarrow> Task list \<Rightarrow> Task list option" where
  "load_loop file head =
     (if file = [] then Some head
      else (case load_line head (fst (fgets (MAX_TASK_LEN + 10) file)) of
              None \<Rightarrow> None
            | Some head' \<Rightarrow> load_loop (snd (fgets (MAX_TASK_LEN + 10) file)) head'))"
  by pat_completeness auto
termination
  by (relation "measure (\<lambda>(file, head). length file)")
     (auto simp: fgets_def MAX_TASK_LEN_def Let_def)

definition loadTasks :: "string option \<Rightarrow> Task list \<Rightarrow> Task list option" where
  "loadTasks file head =
     (case file of
        None \<Rightarrow> Some head
      | Some text \<Rightarrow> load_loop text head)"

subsection \<open>The calls made by main\<close>

text \<open>
  \<^verbatim>\<open>main\<close> first calls \<^verbatim>\<open>loadTasks(&head)\<close> on the empty list and then serves its menu.
  For "add" it fills \<^verbatim>\<open>taskDescription\<close> with \<^verbatim>\<open>fgets\<close>, cuts it at its first newline,
  \<^verbatim>\<open>taskDescription[strcspn(taskDescription, "\n")] = 0\<close>, and passes it to \<^verbatim>\<open>addTask\<close>;
  \<open>Add\<close> carries the buffer as \<^verbatim>\<open>fgets\<close> filled it. For "mark complete" and "delete" it
  passes the number that \<^verbatim>\<open>sscanf\<close> read, whatever it is.
\<close>

definition cut_at_newline :: "string \<Rightarrow> string" where
  "cut_at_newline buf = takeWhile (\<lambda>c. c \<noteq> newline) (cstr buf)"

datatype call = Add string | MarkComplete int | Delete int

fun perform :: "Task list \<Rightarrow> call \<Rightarrow> Task list" where
  "perform head (Add taskDescription) = addTask head (cut_at_newline taskDescription)"
| "perform head (MarkComplete taskIndex) = snd (markComplete head taskIndex)"
| "perform head (Delete taskIndex) = snd (deleteTask head taskIndex)"

definition run :: "call list \<Rightarrow> Task list" where
  "run calls = foldl perform [] calls"

text \<open>A whole session: the list loaded at the start, then the calls; \<open>None\<close> as for \<^verbatim>\<open>loadTasks\<close>.\<close>

definition session :: "string option \<Rightarrow> call list \<Rightarrow> Task list option" where
  "session f calls = map_option (\<lambda>head. foldl perform head calls) (loadTasks f [])"

subsection \<open>Notions of the specification\<close>

text \<open>
  What the data model says of a description: it has at most 255 bytes
  (\<open>short_description\<close>) and none of them is a newline (\<open>description_ok\<close> asks for both).
\<close>

definition short_description :: "Task \<Rightarrow> bool" where
  "short_description t = (length (description t) \<le> 255)"

definition description_ok :: "Task \<Rightarrow> bool" where
  "description_ok t = (length (description t) \<le> 255 \<and> newline \<notin> set (description t))"

text \<open>
  The shape of a line of the task file: white space \<open>ws\<close>, a sign \<open>sg\<close>, digits \<open>ds\<close>, a
  comma, a description \<open>d\<close> of at least one byte, none a newline, and then the end of the
  text or a newline.
\<close>

definition line_shape :: "string \<Rightarrow> string \<Rightarrow> string \<Rightarrow> string \<Rightarrow> string \<Rightarrow> string \<Rightarrow> bool" where
  "line_shape ws sg ds d rest b =
     (b = ws @ sg @ ds @ '','' @ d @ rest
      \<and> (\<forall>c \<in> set ws. isspace c)
      \<and> sg \<in> {[], ''+'', ''-''}
      \<and> ds \<noteq> [] \<and> (\<forall>c \<in> set ds. isdigit c)
      \<and> d \<noteq> [] \<and> newline \<notin> set d
      \<and> (rest = [] \<or> hd rest = newline))"

text \<open>The task that a line of the file stands for, if the line is well-formed.\<close>

definition line_task :: "string \<Rightarrow> Task option" where
  "line_task l =
     (case sscanf_line (l @ [newline]) of
        ScanFields c d \<Rightarrow> Some \<lparr>description = d, completed = (if c \<noteq> 0 then 1 else 0)\<rparr>
      | _ \<Rightarrow> None)"

text \<open>The lines of a file: the runs of bytes between newlines; the last one need not end in a newline.\<close>

fun split_lines :: "string \<Rightarrow> string list" where
  "split_lines [] = []"
| "split_lines (c # cs) =
     (if c = newline then [] # split_lines cs
      else (case split_lines cs of [] \<Rightarrow> [[c]] | l # ls \<Rightarrow> (c # l) # ls))"

text \<open>
  What holds of every task that the calls above can put into the list: the flag is 0 or 1,
  and the description fits the array and has no NUL byte inside.
\<close>

definition stored_ok :: "Task \<Rightarrow> bool" where
  "stored_ok t =
     (completed t \<in> {0, 1} \<and> length (description t) \<le> 255 \<and> CHR 0x00 \<notin> set (description t))"

section \<open>Properties of the list operations\<close>

lemma link_last_append: "link_last head t = head @ [t]"
  by (induction head t rule: link_last.induct) simp_all

lemma addTask_append: "addTask head d = head @ [createTask d]"
  by (cases head) (simp_all add: addTask_def link_last_append del: link_last.simps)

lemma mark_walk_None:
  "count \<le> index \<Longrightarrow> (mark_walk cur count index = None) = (count + int (length cur) \<le> index)"
proof (induction cur arbitrary: count)
  case Nil
  then show ?case by simp
next
  case (Cons c cur)
  show ?case
  proof (cases "count < index")
    case True
    then have "(mark_walk cur (count + 1) index = None) = (count + 1 + int (length cur) \<le> index)"
      by (intro Cons.IH) simp
    with True show ?thesis by (simp add: add.assoc)
  next
    case False
    then show ?thesis by simp
  qed
qed

lemma mark_walk_at:
  "count \<le> index \<Longrightarrow> index < count + int (length cur) \<Longrightarrow>
   mark_walk cur count index =
     Some (cur[nat (index - count) := (cur ! nat (index - count))\<lparr>completed := 1\<rparr>])"
proof (induction cur arbitrary: count)
  case Nil
  then show ?case by simp
next
  case (Cons c cur)
  show ?case
  proof (cases "count < index")
    case True
    then have n: "nat (index - count) = Suc (nat (index - (count + 1)))"
      by simp
    from True Cons.prems have "mark_walk cur (count + 1) index =
        Some (cur[nat (index - (count + 1)) := (cur ! nat (index - (count + 1)))\<lparr>completed := 1\<rparr>])"
      by (intro Cons.IH) simp_all
    with True show ?thesis
      by (simp add: n)
  next
    case False
    with Cons.prems have "index = count" by simp
    then show ?thesis by simp
  qed
qed

lemma mark_walk_below: "index \<le> count \<Longrightarrow> mark_walk (c # rest) count index = Some (c\<lparr>completed := 1\<rparr> # rest)"
  by simp

lemma markComplete_valid:
  assumes "1 \<le> index" and "index \<le> int (length head)"
  shows "markComplete head index =
           (MarkedComplete index, head[nat (index - 1) := (head ! nat (index - 1))\<lparr>completed := 1\<rparr>])"
proof -
  from assms have "mark_walk head 1 index =
      Some (head[nat (index - 1) := (head ! nat (index - 1))\<lparr>completed := 1\<rparr>])"
    by (intro mark_walk_at) simp_all
  then show ?thesis
    by (simp add: markComplete_def)
qed

lemma minus_one_eq: "index \<noteq> INT_MIN \<Longrightarrow> minus_one index = index - 1"
  by (simp add: minus_one_def)

lemma delete_walk_None:
  assumes "index \<noteq> INT_MIN"
  shows "count < index \<Longrightarrow> (delete_walk cur count index = None) = (count + int (length cur) \<le> index)"
proof (induction cur arbitrary: count)
  case Nil
  then show ?case by simp
next
  case (Cons c cur)
  note m = minus_one_eq [OF assms]
  show ?case
  proof (cases "count < index - 1")
    case True
    then have "(delete_walk cur (count + 1) index = None) = (count + 1 + int (length cur) \<le> index)"
      by (intro Cons.IH) simp
    with True show ?thesis by (simp add: m add.assoc)
  next
    case False
    with Cons.prems have i: "index = count + 1" by simp
    with m have "minus_one (count + 1) = count" by simp
    with i show ?thesis by (cases cur) simp_all
  qed
qed

lemma delete_walk_at:
  assumes "index \<noteq> INT_MIN"
  shows "count < index \<Longrightarrow> index < count + int (length cur) \<Longrightarrow>
   delete_walk cur count index =
     Some (take (nat (index - count)) cur @ drop (Suc (nat (index - count))) cur)"
proof (induction cur arbitrary: count)
  case Nil
  then show ?case by simp
next
  case (Cons c cur)
  note m = minus_one_eq [OF assms]
  show ?case
  proof (cases "count < index - 1")
    case True
    then have n: "nat (index - count) = Suc (nat (index - (count + 1)))"
      by simp
    from True Cons.prems have "delete_walk cur (count + 1) index =
        Some (take (nat (index - (count + 1))) cur @ drop (Suc (nat (index - (count + 1)))) cur)"
      by (intro Cons.IH) simp_all
    with True show ?thesis
      by (simp add: m n)
  next
    case False
    with Cons.prems have i: "index = count + 1" by simp
    with Cons.prems obtain t after where "cur = t # after"
      by (cases cur) auto
    moreover from m i have "minus_one (count + 1) = count" by simp
    ultimately show ?thesis using i by simp
  qed
qed

text \<open>At \<^verbatim>\<open>INT_MIN\<close> the walk runs to the end of any list shorter than \<^verbatim>\<open>INT_MAX\<close>.\<close>

lemma delete_walk_INT_MIN:
  "count + int (length cur) \<le> INT_MAX \<Longrightarrow> delete_walk cur count INT_MIN = None"
proof (induction cur arbitrary: count)
  case Nil
  then show ?case by simp
next
  case (Cons c cur)
  then have "count < INT_MAX" by simp
  moreover from Cons.prems have "delete_walk cur (count + 1) INT_MIN = None"
    by (intro Cons.IH) simp
  ultimately show ?case
    by (simp add: minus_one_def)
qed

lemma deleteTask_valid:
  assumes "1 \<le> index" and "index \<le> int (length head)"
  shows "deleteTask head index =
           (TaskDeleted index, take (nat (index - 1)) head @ drop (nat index) head)"
proof (cases head)
  case Nil
  with assms show ?thesis by simp
next
  case (Cons first rest)
  show ?thesis
  proof (cases "index = 1")
    case True
    with Cons show ?thesis by (simp add: deleteTask_def)
  next
    case False
    with assms have "1 < index" "index < 1 + int (length head)" by simp_all
    moreover from assms(1) have "index \<noteq> INT_MIN" by (simp add: INT_MIN_def)
    ultimately have "delete_walk head 1 index =
        Some (take (nat (index - 1)) head @ drop (Suc (nat (index - 1))) head)"
      by (intro delete_walk_at)
    moreover from assms have "Suc (nat (index - 1)) = nat index" by simp
    ultimately show ?thesis
      using Cons False by (simp add: deleteTask_def)
  qed
qed


lemma markComplete_empty: "markComplete [] index = (TaskNotFound index, [])"
  by (simp add: markComplete_def)

lemma markComplete_beyond:
  "int (length head) < index \<Longrightarrow> markComplete head index = (TaskNotFound index, head)"
proof (cases "1 \<le> index")
  case True
  assume "int (length head) < index"
  with True have "mark_walk head 1 index = None"
    by (simp add: mark_walk_None)
  then show ?thesis by (simp add: markComplete_def)
next
  case False
  assume "int (length head) < index"
  with False show ?thesis by simp
qed

lemma markComplete_below_one:
  "index < 1 \<Longrightarrow>
   markComplete (first # rest) index = (MarkedComplete index, first\<lparr>completed := 1\<rparr> # rest)"
  by (simp add: markComplete_def)

lemma deleteTask_empty: "deleteTask [] index = (ListEmpty, [])"
  by (simp add: deleteTask_def)

lemma deleteTask_beyond:
  assumes "int (length head) < index" and "head \<noteq> []"
  shows "deleteTask head index = (TaskNotFound index, head)"
proof -
  from assms obtain first rest where h: "head = first # rest"
    by (cases head) auto
  with assms have i: "1 < index" by simp
  then have "index \<noteq> INT_MIN" by (simp add: INT_MIN_def)
  with i assms have "delete_walk head 1 index = None"
    by (simp add: delete_walk_None)
  with i show ?thesis
    using h by (simp add: deleteTask_def)
qed

lemma deleteTask_below_one:
  "index < 1 \<Longrightarrow> index \<noteq> INT_MIN \<Longrightarrow>
   deleteTask (first # temp # after) index = (TaskDeleted index, first # after)"
  by (simp add: deleteTask_def minus_one_def)

lemma deleteTask_below_one_single:
  "index < 1 \<Longrightarrow> deleteTask [first] index = (TaskNotFound index, [first])"
  by (simp add: deleteTask_def)

lemma deleteTask_INT_MIN:
  assumes "int (length head) < INT_MAX" and "head \<noteq> []"
  shows "deleteTask head INT_MIN = (TaskNotFound INT_MIN, head)"
proof -
  from assms(2) obtain first rest where h: "head = first # rest"
    by (cases head) auto
  from assms(1) have "delete_walk head 1 INT_MIN = None"
    by (intro delete_walk_INT_MIN) simp
  with h show ?thesis
    by (simp add: deleteTask_def INT_MIN_def)
qed

section \<open>Properties of the task file\<close>


declare load_loop.simps [simp del]
declare digits.simps [simp del]

lemma fgets_line:
  assumes "newline \<notin> set l" and "Suc (length l) \<le> sz - 1"
  shows "fgets sz (l @ newline # rest) = (l @ [newline], rest)"
proof -
  from assms(1) have "takeWhile (\<lambda>c. c \<noteq> newline) (l @ newline # rest) = l"
    by (induction l) auto
  with assms(2) show ?thesis
    by (simp add: fgets_def min_def)
qed

lemma fgets_full:
  assumes "newline \<notin> set p" and "length p = sz - 1"
  shows "fgets sz (p @ rest) = (p, rest)"
proof -
  from assms(1) have "takeWhile (\<lambda>c. c \<noteq> newline) (p @ rest) = p @ takeWhile (\<lambda>c. c \<noteq> newline) rest"
    by (induction p) auto
  with assms(2) show ?thesis
    by (simp add: fgets_def min_def)
qed

lemma fgets_last:
  assumes "newline \<notin> set l" and "length l \<le> sz - 1"
  shows "fgets sz l = (l, [])"
proof -
  from assms(1) have tw: "takeWhile (\<lambda>c. c \<noteq> newline) l = l"
    by (induction l) auto
  show ?thesis
    unfolding fgets_def tw using assms(2) by (simp add: min_def)
qed

lemma load_loop_Nil: "load_loop [] head = Some head"
  by (simp add: load_loop.simps)

lemma load_loop_line:
  assumes "newline \<notin> set l" and "length l \<le> 264"
  shows "load_loop (l @ newline # rest) head =
           (case load_line head (l @ [newline]) of None \<Rightarrow> None | Some head' \<Rightarrow> load_loop rest head')"
proof -
  from assms have "fgets (MAX_TASK_LEN + 10) (l @ newline # rest) = (l @ [newline], rest)"
    by (intro fgets_line) (simp_all add: MAX_TASK_LEN_def)
  then show ?thesis
    by (subst load_loop.simps) (simp cong: option.case_cong)
qed

lemma load_loop_full:
  assumes "newline \<notin> set p" and "length p = 265"
  shows "load_loop (p @ rest) head =
           (case load_line head p of None \<Rightarrow> None | Some head' \<Rightarrow> load_loop rest head')"
proof -
  from assms have "fgets (MAX_TASK_LEN + 10) (p @ rest) = (p, rest)"
    by (intro fgets_full) (simp_all add: MAX_TASK_LEN_def)
  moreover from assms have "p \<noteq> []" by auto
  ultimately show ?thesis
    by (subst load_loop.simps) (simp cong: option.case_cong)
qed

lemma mark_last_append: "mark_last (xs @ [t]) = Some (xs @ [t\<lparr>completed := 1\<rparr>])"
  by (induction xs rule: mark_last.induct) simp_all

lemma load_line_append: "load_line head b = map_option ((@) head) (load_line [] b)"
  by (simp add: load_line_def Let_def addTask_append mark_last_append split: scanned.split)
  
lemma load_loop_append: "load_loop bs head = map_option ((@) head) (load_loop bs [])"
proof (induction bs arbitrary: head rule: length_induct)
  case (1 bs)
  show ?case
  proof (cases "bs = []")
    case True
    then show ?thesis by (simp add: load_loop_Nil)
  next
    case False
    let ?b = "fst (fgets (MAX_TASK_LEN + 10) bs)"
    let ?r = "snd (fgets (MAX_TASK_LEN + 10) bs)"
    from False have shorter: "length ?r < length bs"
      by (auto simp: fgets_def MAX_TASK_LEN_def Let_def)
    show ?thesis
    proof (cases "load_line [] ?b")
      case None
      then have "load_line head ?b = None"
        by (subst load_line_append) simp
      with None False show ?thesis
        by (simp add: load_loop.simps [of bs])
    next
      case (Some new)
      then have h: "load_line head ?b = Some (head @ new)"
        by (subst load_line_append) simp
      from shorter 1 have a: "load_loop ?r (head @ new) = map_option ((@) (head @ new)) (load_loop ?r [])"
        by blast
      from shorter 1 have b: "load_loop ?r new = map_option ((@) new) (load_loop ?r [])"
        by blast
      from False Some h a b show ?thesis
        by (cases "load_loop ?r []") (simp_all add: load_loop.simps [of bs])
    qed
  qed
qed

lemma isdigit_not_space: "isdigit c \<Longrightarrow> \<not> isspace c"
  by (auto simp: isdigit_def isspace_def)

lemma isdigit_not_sign: "isdigit c \<Longrightarrow> c \<noteq> CHR ''-'' \<and> c \<noteq> CHR ''+''"
  by (auto simp: isdigit_def)

lemma comma_not_digit: "\<not> isdigit CHR '',''"
  by (simp add: isdigit_def)

lemma sign_not_space: "\<not> isspace CHR ''-''" "\<not> isspace CHR ''+''"
  by (simp_all add: isspace_def)

lemma scan_d_shape:
  assumes ws: "\<forall>c \<in> set ws. isspace c"
    and sg: "sg \<in> {[], ''+'', ''-''}"
    and ds: "ds \<noteq> []" "\<forall>c \<in> set ds. isdigit c"
    and r: "r = [] \<or> \<not> isdigit (hd r)"
  shows "scan_d (ws @ sg @ ds @ r) =
           (if signed_value (sg = ''-'') ds < INT_MIN \<or> INT_MAX < signed_value (sg = ''-'') ds
            then Undefined else Converted (signed_value (sg = ''-'') ds, r))"
proof -
  from ds obtain c ds' where c: "ds = c # ds'" "isdigit c"
    by (cases ds) auto
  have tw: "takeWhile isdigit (ds @ r) = ds"
    using ds(2) r by (cases r) simp_all
  have dw: "dropWhile isdigit (ds @ r) = r"
    using ds(2) r by (cases r) simp_all
  have s1: "dropWhile isspace (ws @ sg @ ds @ r) = sg @ ds @ r"
    using ws sg c by (auto simp: isdigit_not_space sign_not_space)
  from sg consider "sg = []" | "sg = ''+''" | "sg = ''-''" by auto
  then show ?thesis
  proof cases
    case 1
    with c isdigit_not_sign [of c] have "hd (sg @ ds @ r) \<noteq> CHR ''-''" "hd (sg @ ds @ r) \<noteq> CHR ''+''"
      by simp_all
    with 1 ds(1) show ?thesis
      unfolding scan_d_def s1 by (simp add: tw dw Let_def)
  next
    case 2
    with ds(1) show ?thesis
      unfolding scan_d_def s1 by (simp add: tw dw Let_def)
  next
    case 3
    with ds(1) show ?thesis
      unfolding scan_d_def s1 by (simp add: tw dw Let_def)
  qed
qed

lemma scan_d_Converted:
  assumes "scan_d s = Converted (v, r)"
  obtains ws sg ds where "s = ws @ sg @ ds @ r" "\<forall>c \<in> set ws. isspace c" "sg \<in> {[], ''+'', ''-''}"
    "ds \<noteq> []" "\<forall>c \<in> set ds. isdigit c" "r = [] \<or> \<not> isdigit (hd r)"
    "v = signed_value (sg = ''-'') ds" "INT_MIN \<le> v" "v \<le> INT_MAX"
proof -
  define s1 where "s1 = dropWhile isspace s"
  define sg where "sg = (if s1 \<noteq> [] \<and> (hd s1 = CHR ''-'' \<or> hd s1 = CHR ''+'') then [hd s1] else [])"
  define s2 where "s2 = (if s1 \<noteq> [] \<and> (hd s1 = CHR ''-'' \<or> hd s1 = CHR ''+'') then tl s1 else s1)"
  define ds where "ds = takeWhile isdigit s2"
  have neg: "(s1 \<noteq> [] \<and> hd s1 = CHR ''-'') = (sg = ''-'')"
    by (auto simp: sg_def)
  from assms have conv: "ds \<noteq> []" "v = signed_value (sg = ''-'') ds" "r = dropWhile isdigit s2"
    "INT_MIN \<le> v" "v \<le> INT_MAX"
    unfolding scan_d_def s1_def [symmetric] Let_def neg s2_def [symmetric] ds_def [symmetric]
    by (auto split: if_splits)
  have "s = takeWhile isspace s @ s1"
    by (simp add: s1_def)
  moreover have "s1 = sg @ s2"
    by (cases s1) (auto simp: sg_def s2_def)
  moreover have "s2 = ds @ r"
    by (simp add: ds_def conv(3))
  ultimately have "s = takeWhile isspace s @ sg @ ds @ r"
    by simp
  moreover have "\<forall>c \<in> set (takeWhile isspace s). isspace c"
    by (auto dest: set_takeWhileD)
  moreover have "sg \<in> {[], ''+'', ''-''}"
    by (auto simp: sg_def)
  moreover have "\<forall>c \<in> set ds. isdigit c"
    by (auto simp: ds_def dest: set_takeWhileD)
  moreover have "r = [] \<or> \<not> isdigit (hd r)"
    unfolding conv(3) by (metis hd_dropWhile)
  ultimately show thesis
    using conv that by blast
qed


lemma cstr_no_NUL: "CHR 0x00 \<notin> set (cstr s)"
  by (auto simp: cstr_def dest: set_takeWhileD)

lemma takeWhile_neq_id: "c \<notin> set xs \<Longrightarrow> takeWhile (\<lambda>x. x \<noteq> c) xs = xs"
  by (induction xs) auto

lemma takeWhile_neq_stop: "c \<notin> set xs \<Longrightarrow> takeWhile (\<lambda>x. x \<noteq> c) (xs @ c # ys) = xs"
  by (induction xs) auto

lemma cstr_id: "CHR 0x00 \<notin> set s \<Longrightarrow> cstr s = s"
  by (simp add: cstr_def takeWhile_neq_id)

lemma sscanf_line_shape:
  assumes "line_shape ws sg ds d rest (cstr b)"
  shows "sscanf_line b =
           (if signed_value (sg = ''-'') ds < INT_MIN \<or> INT_MAX < signed_value (sg = ''-'') ds
               \<or> MAX_TASK_LEN \<le> length d
            then ScanUndefined else ScanFields (signed_value (sg = ''-'') ds) d)"
proof -
  from assms have b: "cstr b = ws @ sg @ ds @ (CHR '','' # d @ rest)"
    and ws: "\<forall>c \<in> set ws. isspace c" and sg: "sg \<in> {[], ''+'', ''-''}"
    and ds: "ds \<noteq> []" "\<forall>c \<in> set ds. isdigit c"
    and d: "d \<noteq> []" "newline \<notin> set d" and rest: "rest = [] \<or> hd rest = newline"
    by (simp_all add: line_shape_def)
  have "scan_d (cstr b) =
      (if signed_value (sg = ''-'') ds < INT_MIN \<or> INT_MAX < signed_value (sg = ''-'') ds
       then Undefined else Converted (signed_value (sg = ''-'') ds, CHR '','' # d @ rest))"
    unfolding b using ws sg ds by (rule scan_d_shape) (simp add: comma_not_digit)
  moreover have "takeWhile (\<lambda>c. c \<noteq> newline) (d @ rest) = d"
    using d(2) rest by (cases rest) (simp_all add: takeWhile_neq_id takeWhile_neq_stop)
  ultimately show ?thesis
    using d(1) by (simp add: sscanf_line_def)
qed

lemma sscanf_line_Fields:
  assumes "sscanf_line b = ScanFields v d"
  obtains ws sg ds rest where "line_shape ws sg ds d rest (cstr b)"
    "v = signed_value (sg = ''-'') ds" "INT_MIN \<le> v" "v \<le> INT_MAX" "length d < MAX_TASK_LEN"
proof -
  from assms obtain r' where conv: "scan_d (cstr b) = Converted (v, CHR '','' # r')"
    and d: "d = takeWhile (\<lambda>c. c \<noteq> newline) r'" "d \<noteq> []" "length d < MAX_TASK_LEN"
    by (auto simp: sscanf_line_def Let_def split: conversion.splits list.splits if_splits)
  from conv obtain ws sg ds where shape: "cstr b = ws @ sg @ ds @ (CHR '','' # r')"
    "\<forall>c \<in> set ws. isspace c" "sg \<in> {[], ''+'', ''-''}" "ds \<noteq> []" "\<forall>c \<in> set ds. isdigit c"
    "v = signed_value (sg = ''-'') ds" "INT_MIN \<le> v" "v \<le> INT_MAX"
    by (rule scan_d_Converted)
  define rest where "rest = dropWhile (\<lambda>c. c \<noteq> newline) r'"
  have "r' = d @ rest"
    by (simp add: d(1) rest_def)
  moreover have "newline \<notin> set d"
    unfolding d(1) by (auto dest: set_takeWhileD)
  moreover have "rest = [] \<or> hd rest = newline"
    unfolding rest_def using hd_dropWhile [of "\<lambda>c. c \<noteq> newline" r'] by auto
  ultimately have "line_shape ws sg ds d rest (cstr b)"
    using shape d(2) by (simp add: line_shape_def)
  with shape d(3) that show thesis
    by blast
qed

lemma sscanf_line_Fields_description:
  assumes "sscanf_line b = ScanFields v d"
  shows "d \<noteq> []" "newline \<notin> set d" "CHR 0x00 \<notin> set d" "length d \<le> 255"
proof -
  from assms obtain ws sg ds rest where s: "line_shape ws sg ds d rest (cstr b)"
    and len: "length d < MAX_TASK_LEN"
    by (rule sscanf_line_Fields)
  from s show "d \<noteq> []" "newline \<notin> set d"
    by (simp_all add: line_shape_def)
  from s have "set d \<subseteq> set (cstr b)"
    by (auto simp: line_shape_def)
  with cstr_no_NUL [of b] show "CHR 0x00 \<notin> set d"
    by auto
  from len show "length d \<le> 255"
    by (simp add: MAX_TASK_LEN_def)
qed

lemma createTask_short:
  "CHR 0x00 \<notin> set d \<Longrightarrow> length d \<le> 255 \<Longrightarrow> createTask d = \<lparr>description = d, completed = 0\<rparr>"
  by (simp add: createTask_def cstr_id MAX_TASK_LEN_def)

lemma load_line_Fields:
  assumes "sscanf_line b = ScanFields v d"
  shows "load_line head b = Some (head @ [\<lparr>description = d, completed = (if v \<noteq> 0 then 1 else 0)\<rparr>])"
proof -
  from assms have "createTask d = \<lparr>description = d, completed = 0\<rparr>"
    by (intro createTask_short sscanf_line_Fields_description)
  with assms show ?thesis
    by (simp add: load_line_def addTask_append mark_last_append)
qed

lemma load_line_Failed: "sscanf_line b = ScanFailed \<Longrightarrow> load_line head b = Some head"
  by (simp add: load_line_def)

lemma load_line_Undefined: "sscanf_line b = ScanUndefined \<Longrightarrow> load_line head b = None"
  by (simp add: load_line_def)

lemma load_line_task:
  "sscanf_line (l @ [newline]) \<noteq> ScanUndefined \<Longrightarrow>
   load_line head (l @ [newline]) = Some (head @ (case line_task l of None \<Rightarrow> [] | Some t \<Rightarrow> [t]))"
  by (cases "sscanf_line (l @ [newline])")
     (simp_all add: line_task_def load_line_Fields load_line_Failed)

lemma split_lines_line: "newline \<notin> set l \<Longrightarrow> split_lines (l @ newline # rest) = l # split_lines rest"
  by (induction l) auto

lemma split_lines_last: "newline \<notin> set l \<Longrightarrow> l \<noteq> [] \<Longrightarrow> split_lines l = [l]"
proof (induction l)
  case Nil
  then show ?case by simp
next
  case (Cons c l)
  then show ?case by (cases l) auto
qed

lemma takeWhile_snoc_stop: "\<not> P x \<Longrightarrow> takeWhile P (xs @ [x]) = takeWhile P xs"
  by (induction xs) simp_all

lemma dropWhile_snoc_stop: "\<not> P x \<Longrightarrow> dropWhile P (xs @ [x]) = dropWhile P xs @ [x]"
  by (induction xs) simp_all

lemma newline_space: "isspace newline" "\<not> isdigit newline"
  by (simp_all add: isspace_def isdigit_def)

lemma scan_d_newline:
  "scan_d (l @ [newline]) =
     (case scan_d l of
        Undefined \<Rightarrow> Undefined
      | Mismatch \<Rightarrow> Mismatch
      | Converted (v, r) \<Rightarrow> Converted (v, r @ [newline]))"
proof (cases "\<forall>c \<in> set l. isspace c")
  case True
  then have e: "dropWhile isspace (l @ [newline]) = []" "dropWhile isspace l = []"
    by (simp_all add: newline_space)
  show ?thesis
    unfolding scan_d_def e by simp
next
  case False
  then obtain x where "x \<in> set l" "\<not> isspace x" by blast
  then have d: "dropWhile isspace (l @ [newline]) = dropWhile isspace l @ [newline]"
    by (rule dropWhile_append1)
  define s1 where "s1 = dropWhile isspace l"
  from False have ne: "s1 \<noteq> []"
    by (simp add: s1_def)
  define s2 where "s2 = (if hd s1 = CHR ''-'' \<or> hd s1 = CHR ''+'' then tl s1 else s1)"
  from ne have s2: "(if s1 @ [newline] \<noteq> [] \<and> (hd (s1 @ [newline]) = CHR ''-'' \<or> hd (s1 @ [newline]) = CHR ''+'')
      then tl (s1 @ [newline]) else s1 @ [newline]) = s2 @ [newline]"
    by (simp add: s2_def)
  from ne have s2': "(if s1 \<noteq> [] \<and> (hd s1 = CHR ''-'' \<or> hd s1 = CHR ''+'') then tl s1 else s1) = s2"
    by (simp add: s2_def)
  from ne have neg: "(s1 @ [newline] \<noteq> [] \<and> hd (s1 @ [newline]) = CHR ''-'') = (s1 \<noteq> [] \<and> hd s1 = CHR ''-'')"
    by simp
  show ?thesis
    unfolding scan_d_def d s1_def [symmetric] Let_def s2 s2' neg
    by (simp add: takeWhile_snoc_stop dropWhile_snoc_stop newline_space)
qed

lemma sscanf_line_newline:
  assumes "newline \<notin> set l"
  shows "sscanf_line (l @ [newline]) = sscanf_line l"
proof (cases "CHR 0x00 \<in> set l")
  case True
  then have "cstr (l @ [newline]) = cstr l"
    unfolding cstr_def by (intro takeWhile_append1 [of "CHR 0x00"]) simp_all
  then show ?thesis
    by (simp add: sscanf_line_def)
next
  case False
  then have c: "cstr (l @ [newline]) = l @ [newline]" "cstr l = l"
    by (simp_all add: cstr_id)
  show ?thesis
  proof (cases "scan_d l")
    case Undefined
    then show ?thesis by (simp add: sscanf_line_def c scan_d_newline)
  next
    case Mismatch
    then show ?thesis by (simp add: sscanf_line_def c scan_d_newline)
  next
    case (Converted p)
    obtain v r where p: "p = (v, r)" by (cases p)
    with Converted have "scan_d l = Converted (v, r)" by simp
    then obtain ws sg ds where "l = ws @ sg @ ds @ r" "\<forall>c \<in> set ws. isspace c" "sg \<in> {[], ''+'', ''-''}"
      "ds \<noteq> []" "\<forall>c \<in> set ds. isdigit c" "r = [] \<or> \<not> isdigit (hd r)"
      "v = signed_value (sg = ''-'') ds" "INT_MIN \<le> v" "v \<le> INT_MAX"
      by (rule scan_d_Converted)
    with assms have r: "newline \<notin> set r" by auto
    show ?thesis
    proof (cases r)
      case Nil
      with Converted p show ?thesis
        by (simp add: sscanf_line_def c scan_d_newline)
    next
      case (Cons x r')
      with r have "takeWhile (\<lambda>c. c \<noteq> newline) (r' @ [newline]) = takeWhile (\<lambda>c. c \<noteq> newline) r'"
        by (simp add: takeWhile_snoc_stop)
      with Converted p Cons show ?thesis
        by (simp add: sscanf_line_def c scan_d_newline)
    qed
  qed
qed

lemma load_loop_last:
  assumes "newline \<notin> set l" and "l \<noteq> []" and "length l \<le> 265"
  shows "load_loop l head = load_line head l"
proof -
  from assms have "fgets (MAX_TASK_LEN + 10) l = (l, [])"
    by (intro fgets_last) (simp_all add: MAX_TASK_LEN_def)
  with assms(2) show ?thesis
    by (subst load_loop.simps) (simp add: load_loop_Nil cong: option.case_cong split: option.split)
qed

lemma load_loop_split_lines:
  "\<forall>l \<in> set (split_lines bs). length l \<le> 264 \<and> sscanf_line (l @ [newline]) \<noteq> ScanUndefined \<Longrightarrow>
   load_loop bs head = Some (head @ List.map_filter line_task (split_lines bs))"
proof (induction bs arbitrary: head rule: length_induct)
  case (1 bs)
  let ?l = "takeWhile (\<lambda>c. c \<noteq> newline) bs"
  let ?r = "dropWhile (\<lambda>c. c \<noteq> newline) bs"
  have nl: "newline \<notin> set ?l"
    by (auto dest: set_takeWhileD)
  show ?case
  proof (cases "bs = []")
    case True
    then show ?thesis by (simp add: load_loop_Nil)
  next
    case False
    show ?thesis
    proof (cases ?r)
      case Nil
      then have bs: "bs = ?l"
        by (metis append_Nil2 takeWhile_dropWhile_id)
      with nl False have sp: "split_lines bs = [bs]"
        by (metis split_lines_last)
      with "1.prems" have ok: "length bs \<le> 264" "sscanf_line (bs @ [newline]) \<noteq> ScanUndefined"
        by simp_all
      from bs nl have nlb: "newline \<notin> set bs" by metis
      with False ok(1) have "load_loop bs head = load_line head bs"
        by (intro load_loop_last) simp_all
      also from nlb have "sscanf_line bs = sscanf_line (bs @ [newline])"
        by (simp add: sscanf_line_newline)
      then have "load_line head bs = load_line head (bs @ [newline])"
        by (simp add: load_line_def)
      also from ok(2) have "\<dots> = Some (head @ (case line_task bs of None \<Rightarrow> [] | Some t \<Rightarrow> [t]))"
        by (rule load_line_task)
      finally show ?thesis
        by (simp add: sp split: option.split)
    next
      case (Cons x rest)
      have "x = newline"
        using hd_dropWhile [of "\<lambda>c. c \<noteq> newline" bs] Cons by simp
      with Cons have bs: "bs = ?l @ newline # rest"
        by (metis takeWhile_dropWhile_id)
      then have shorter: "length rest < length bs"
        by (metis length_append length_Cons less_add_Suc2 add_Suc_right)
      from bs nl have sp: "split_lines bs = ?l # split_lines rest"
        by (metis split_lines_line)
      with "1.prems" have ok: "length ?l \<le> 264" "sscanf_line (?l @ [newline]) \<noteq> ScanUndefined"
        and rest: "\<forall>l \<in> set (split_lines rest). length l \<le> 264 \<and> sscanf_line (l @ [newline]) \<noteq> ScanUndefined"
        by simp_all
      have "load_loop bs head = load_loop (?l @ newline # rest) head"
        using bs by simp
      also have "\<dots> = (case load_line head (?l @ [newline]) of
                          None \<Rightarrow> None | Some head' \<Rightarrow> load_loop rest head')"
        using nl ok(1) by (rule load_loop_line)
      also have "\<dots> = load_loop rest (head @ (case line_task ?l of None \<Rightarrow> [] | Some t \<Rightarrow> [t]))"
        by (simp add: load_line_task [OF ok(2)])
      also have "\<dots> = Some ((head @ (case line_task ?l of None \<Rightarrow> [] | Some t \<Rightarrow> [t]))
                            @ List.map_filter line_task (split_lines rest))"
        using "1.IH" shorter rest by blast
      finally show ?thesis
        by (simp add: sp split: option.split)
    qed
  qed
qed

lemma mark_walk_pres:
  assumes "\<And>t. P t \<Longrightarrow> P (t\<lparr>completed := 1\<rparr>)"
  shows "\<forall>t \<in> set cur. P t \<Longrightarrow> mark_walk cur count index = Some cur' \<Longrightarrow> \<forall>t \<in> set cur'. P t"
proof (induction cur arbitrary: count cur')
  case Nil
  then show ?case by simp
next
  case (Cons c cur)
  show ?case
  proof (cases "count < index")
    case True
    with Cons.prems obtain cur'' where w: "mark_walk cur (count + 1) index = Some cur''" and c: "cur' = c # cur''"
      by auto
    from Cons.prems have "\<forall>t \<in> set cur. P t" by simp
    from this w have "\<forall>t \<in> set cur''. P t" by (rule Cons.IH)
    with c Cons.prems show ?thesis by simp
  next
    case False
    with Cons.prems assms show ?thesis by auto
  qed
qed

lemma markComplete_pres:
  assumes "\<And>t. P t \<Longrightarrow> P (t\<lparr>completed := 1\<rparr>)" and "\<forall>t \<in> set head. P t"
  shows "\<forall>t \<in> set (snd (markComplete head index)). P t"
proof (cases "mark_walk head 1 index")
  case None
  with assms(2) show ?thesis by (simp add: markComplete_def)
next
  case (Some head')
  with mark_walk_pres [of P head 1 index head'] assms show ?thesis
    by (simp add: markComplete_def)
qed

lemma delete_walk_subset: "delete_walk cur count index = Some cur' \<Longrightarrow> set cur' \<subseteq> set cur"
proof (induction cur arbitrary: count cur')
  case Nil
  then show ?case by simp
next
  case (Cons c cur)
  show ?case
  proof (cases "count < minus_one index")
    case True
    with Cons.prems obtain cur'' where w: "delete_walk cur (count + 1) index = Some cur''" and c: "cur' = c # cur''"
      by auto
    from w have "set cur'' \<subseteq> set cur" by (rule Cons.IH)
    with c show ?thesis by auto
  next
    case False
    with Cons.prems show ?thesis by (cases cur) auto
  qed
qed

lemma deleteTask_subset: "set (snd (deleteTask head index)) \<subseteq> set head"
proof (cases head)
  case Nil
  then show ?thesis by (simp add: deleteTask_def)
next
  case (Cons first rest)
  show ?thesis
  proof (cases "delete_walk head 1 index")
    case None
    with Cons show ?thesis by (auto simp: deleteTask_def)
  next
    case (Some head')
    with delete_walk_subset [of head 1 index head'] Cons show ?thesis
      by (auto simp: deleteTask_def)
  qed
qed

lemma stored_ok_createTask: "stored_ok (createTask d)"
proof -
  have "set (take (MAX_TASK_LEN - 1) (cstr d)) \<subseteq> set (cstr d)"
    by (rule set_take_subset)
  with cstr_no_NUL [of d] show ?thesis
    by (auto simp: stored_ok_def createTask_def MAX_TASK_LEN_def)
qed

lemma stored_ok_perform:
  assumes "\<forall>t \<in> set head. stored_ok t"
  shows "\<forall>t \<in> set (perform head c). stored_ok t"
proof (cases c)
  case (Add d)
  with assms show ?thesis by (simp add: addTask_append stored_ok_createTask)
next
  case (MarkComplete i)
  have "\<forall>t \<in> set (snd (markComplete head i)). stored_ok t"
    using _ assms by (rule markComplete_pres) (simp add: stored_ok_def)
  with MarkComplete show ?thesis by simp
next
  case (Delete i)
  with assms deleteTask_subset [of head i] show ?thesis by auto
qed

lemma stored_ok_foldl:
  "\<forall>t \<in> set head. stored_ok t \<Longrightarrow> \<forall>t \<in> set (foldl perform head calls). stored_ok t"
proof (induction calls arbitrary: head)
  case Nil
  then show ?case by simp
next
  case (Cons c calls)
  from Cons.prems have "\<forall>t \<in> set (perform head c). stored_ok t"
    by (rule stored_ok_perform)
  then have "\<forall>t \<in> set (foldl perform (perform head c) calls). stored_ok t"
    by (rule Cons.IH)
  then show ?case by simp
qed

lemma stored_ok_run: "\<forall>t \<in> set (run calls). stored_ok t"
  unfolding run_def by (rule stored_ok_foldl) simp

lemma fmt_d_bit: "c \<in> {0, 1} \<Longrightarrow> fmt_d c = (if c = 0 then ''0'' else ''1'')"
  by (auto simp: fmt_d_def digits.simps)

lemma sscanf_line_saved:
  assumes "stored_ok t" and "description t \<noteq> []" and "newline \<notin> set (description t)"
  shows "sscanf_line (fmt_d (completed t) @ '','' @ description t @ [newline])
           = ScanFields (completed t) (description t)"
proof -
  let ?ds = "fmt_d (completed t)"
  let ?b = "?ds @ '','' @ description t @ [newline]"
  from assms(1) have c: "completed t \<in> {0, 1}" and len: "length (description t) \<le> 255"
    and nul: "CHR 0x00 \<notin> set (description t)"
    by (simp_all add: stored_ok_def)
  from c have ds: "?ds \<noteq> []" "\<forall>x \<in> set ?ds. isdigit x" "CHR 0x00 \<notin> set ?ds"
    "signed_value False ?ds = completed t"
    by (auto simp: fmt_d_bit isdigit_def signed_value_def decimal_def digit_val_def)
  from ds(3) nul have "cstr ?b = ?b"
    by (intro cstr_id) simp
  with ds(1,2) assms(2,3) have "line_shape [] [] ?ds (description t) [newline] (cstr ?b)"
    by (simp add: line_shape_def)
  from sscanf_line_shape [OF this] ds(4) c len show ?thesis
    by (auto simp: INT_MIN_def INT_MAX_def MAX_TASK_LEN_def)
qed

lemma load_loop_saved:
  assumes "\<forall>t \<in> set ts. stored_ok t \<and> description t \<noteq> [] \<and> newline \<notin> set (description t)"
  shows "load_loop (save_loop ts) head = Some (head @ ts)"
  using assms
proof (induction ts arbitrary: head)
  case Nil
  then show ?case by (simp add: load_loop_Nil)
next
  case (Cons t ts)
  let ?l = "fmt_d (completed t) @ '','' @ description t"
  from Cons.prems have t: "stored_ok t" "description t \<noteq> []" "newline \<notin> set (description t)"
    by simp_all
  from t(1) have c: "completed t \<in> {0, 1}" and len: "length (description t) \<le> 255"
    by (simp_all add: stored_ok_def)
  from c t(3) have nl: "newline \<notin> set ?l"
    by (auto simp: fmt_d_bit)
  from c len have short: "length ?l \<le> 264"
    by (auto simp: fmt_d_bit)
  from t have "sscanf_line (?l @ [newline]) = ScanFields (completed t) (description t)"
    using sscanf_line_saved [of t] by simp
  then have "load_line head (?l @ [newline])
      = Some (head @ [\<lparr>description = description t, completed = (if completed t \<noteq> 0 then 1 else 0)\<rparr>])"
    by (rule load_line_Fields)
  also from c have "\<lparr>description = description t, completed = (if completed t \<noteq> 0 then 1 else 0)\<rparr> = t"
    by auto
  finally have line: "load_line head (?l @ [newline]) = Some (head @ [t])" .
  have "load_loop (save_loop (t # ts)) head = load_loop (?l @ newline # save_loop ts) head"
    by simp
  also have "\<dots> = (case load_line head (?l @ [newline]) of
                        None \<Rightarrow> None | Some head' \<Rightarrow> load_loop (save_loop ts) head')"
    using nl short by (rule load_loop_line)
  also have "\<dots> = load_loop (save_loop ts) (head @ [t])"
    unfolding line by simp
  also have "\<dots> = Some ((head @ [t]) @ ts)"
    using Cons.prems by (intro Cons.IH) simp
  finally show ?case by simp
qed

lemmas eval_defs = run_def cut_at_newline_def minus_one_def addTask_def createTask_def cstr_def saveTasks_def loadTasks_def fmt_d_def digits.simps
      load_loop.simps fgets_def MAX_TASK_LEN_def load_line_def sscanf_line_def scan_d_def isspace_def isdigit_def
      signed_value_def decimal_def digit_val_def INT_MIN_def INT_MAX_def markComplete_def deleteTask_def

lemma sscanf_line_bad_start:
  assumes "\<not> isspace c" "c \<noteq> CHR ''-''" "c \<noteq> CHR ''+''" "\<not> isdigit c" "c \<noteq> CHR 0x00"
  shows "sscanf_line (c # s) = ScanFailed"
  using assms by (simp add: sscanf_line_def scan_d_def cstr_def)

lemma load_loop_skip_full:
  assumes "newline \<notin> set p" and "length p = 265" and "sscanf_line p = ScanFailed"
  shows "load_loop (p @ rest) head = load_loop rest head"
  using assms by (simp add: load_loop_full load_line_Failed)

lemma map_filter_two:
  assumes "filter (\<lambda>l. f l \<noteq> None) ls = [a, b]"
  shows "List.map_filter f ls = [the (f a), the (f b)]"
proof -
  have "List.map_filter f ls = map (the \<circ> f) (filter (\<lambda>l. f l \<noteq> None) ls)"
    by (simp add: List.map_filter_def)
  with assms show ?thesis by simp
qed

lemma description_ok_createTask:
  assumes "newline \<notin> set (cstr d)"
  shows "description_ok (createTask d)"
proof -
  have "set (take (MAX_TASK_LEN - 1) (cstr d)) \<subseteq> set (cstr d)"
    by (rule set_take_subset)
  with assms show ?thesis
    by (auto simp: description_ok_def createTask_def MAX_TASK_LEN_def)
qed

lemma cut_at_newline_clean: "newline \<notin> set (cstr (cut_at_newline buf))"
proof -
  have "CHR 0x00 \<notin> set (cut_at_newline buf)"
    using cstr_no_NUL [of buf] by (auto simp: cut_at_newline_def dest: set_takeWhileD)
  then have "cstr (cut_at_newline buf) = cut_at_newline buf"
    by (rule cstr_id)
  then show ?thesis
    by (auto simp: cut_at_newline_def dest: set_takeWhileD)
qed

lemma load_line_pres:
  assumes new: "\<And>d c. length d \<le> 255 \<Longrightarrow> newline \<notin> set d \<Longrightarrow> P \<lparr>description = d, completed = c\<rparr>"
    and "\<forall>t \<in> set head. P t" and "load_line head b = Some head'"
  shows "\<forall>t \<in> set head'. P t"
proof (cases "sscanf_line b")
  case ScanUndefined
  with assms(3) show ?thesis by (simp add: load_line_Undefined)
next
  case ScanFailed
  with assms(2,3) show ?thesis by (simp add: load_line_Failed)
next
  case (ScanFields v d)
  from ScanFields have "newline \<notin> set d" "length d \<le> 255"
    by (rule sscanf_line_Fields_description)+
  then have "P \<lparr>description = d, completed = (if v \<noteq> 0 then 1 else 0)\<rparr>"
    by (intro new)
  moreover from ScanFields assms(3)
  have "head' = head @ [\<lparr>description = d, completed = (if v \<noteq> 0 then 1 else 0)\<rparr>]"
    by (simp add: load_line_Fields)
  ultimately show ?thesis
    using assms(2) by simp
qed

lemma load_loop_pres:
  assumes new: "\<And>d c. length d \<le> 255 \<Longrightarrow> newline \<notin> set d \<Longrightarrow> P \<lparr>description = d, completed = c\<rparr>"
  shows "\<forall>t \<in> set head. P t \<Longrightarrow> load_loop bs head = Some head' \<Longrightarrow> \<forall>t \<in> set head'. P t"
proof (induction bs head rule: load_loop.induct)
  case (1 bs head)
  show ?case
  proof (cases "bs = []")
    case True
    with "1.prems" show ?thesis by (simp add: load_loop_Nil)
  next
    case False
    let ?b = "fst (fgets (MAX_TASK_LEN + 10) bs)"
    let ?r = "snd (fgets (MAX_TASK_LEN + 10) bs)"
    from False "1.prems"(2) obtain h where h: "load_line head ?b = Some h" and l: "load_loop ?r h = Some head'"
      by (subst (asm) load_loop.simps) (auto split: option.splits)
    from new "1.prems"(1) h have "\<forall>t \<in> set h. P t"
      by (rule load_line_pres)
    with False h l show ?thesis
      by (intro "1.IH" [of h]) simp_all
  qed
qed

lemma loadTasks_pres:
  assumes "\<And>d c. length d \<le> 255 \<Longrightarrow> newline \<notin> set d \<Longrightarrow> P \<lparr>description = d, completed = c\<rparr>"
    and "\<forall>t \<in> set head. P t" and "loadTasks f head = Some head'"
  shows "\<forall>t \<in> set head'. P t"
proof (cases f)
  case None
  with assms(2,3) show ?thesis by (simp add: loadTasks_def)
next
  case (Some bs)
  with assms(3) have "load_loop bs head = Some head'" by (simp add: loadTasks_def)
  with assms(1,2) show ?thesis by (rule load_loop_pres)
qed

lemma short_description_createTask: "short_description (createTask d)"
  by (simp add: short_description_def createTask_def MAX_TASK_LEN_def)

lemma description_ok_addTask:
  "\<forall>t \<in> set head. description_ok t \<Longrightarrow> newline \<notin> set (cstr d) \<Longrightarrow>
   \<forall>t \<in> set (addTask head d). description_ok t"
  by (simp add: addTask_append description_ok_createTask)

lemma description_ok_perform:
  assumes "\<forall>t \<in> set head. description_ok t"
  shows "\<forall>t \<in> set (perform head c). description_ok t"
proof (cases c)
  case (Add buf)
  from assms cut_at_newline_clean have "\<forall>t \<in> set (addTask head (cut_at_newline buf)). description_ok t"
    by (rule description_ok_addTask)
  with Add show ?thesis by simp
next
  case (MarkComplete i)
  have "\<forall>t \<in> set (snd (markComplete head i)). description_ok t"
    using _ assms by (rule markComplete_pres) (simp add: description_ok_def)
  with MarkComplete show ?thesis by simp
next
  case (Delete i)
  with assms deleteTask_subset [of head i] show ?thesis by auto
qed

lemma description_ok_foldl:
  "\<forall>t \<in> set head. description_ok t \<Longrightarrow> \<forall>t \<in> set (foldl perform head calls). description_ok t"
proof (induction calls arbitrary: head)
  case Nil
  then show ?case by simp
next
  case (Cons c calls)
  from Cons.prems have "\<forall>t \<in> set (perform head c). description_ok t"
    by (rule description_ok_perform)
  then have "\<forall>t \<in> set (foldl perform (perform head c) calls). description_ok t"
    by (rule Cons.IH)
  then show ?case by simp
qed

lemma description_ok_run: "\<forall>t \<in> set (run calls). description_ok t"
  unfolding run_def by (rule description_ok_foldl) simp

text \<open>
  Saving and loading gives back every list that the calls of \<^verbatim>\<open>main\<close> can build, as long
  as no description in it is empty.
\<close>

lemma round_trip_nonempty:
  assumes "\<forall>t \<in> set (run calls). description t \<noteq> []"
  shows "loadTasks (saveTasks True f (run calls)) [] = Some (run calls)"
proof -
  from assms stored_ok_run [of calls] description_ok_run [of calls]
  have "\<forall>t \<in> set (run calls). stored_ok t \<and> description t \<noteq> [] \<and> newline \<notin> set (description t)"
    by (simp add: description_ok_def)
  then have "load_loop (save_loop (run calls)) [] = Some ([] @ run calls)"
    by (rule load_loop_saved)
  then show ?thesis
    by (simp add: loadTasks_def saveTasks_def)
qed

lemma load_single_line:
  assumes "newline \<notin> set l" and "length l \<le> 264"
  shows "loadTasks (Some (l @ [newline])) head = load_line head (l @ [newline])"
proof -
  from assms have "load_loop (l @ newline # []) head =
      (case load_line head (l @ [newline]) of None \<Rightarrow> None | Some head' \<Rightarrow> load_loop [] head')"
    by (rule load_loop_line)
  then show ?thesis
    by (cases "load_line head (l @ [newline])") (simp_all add: loadTasks_def load_loop_Nil)
qed

section \<open>The claims\<close>

text \<open>
  C1. The specification asks that \<open>markComplete(i)\<close> with \<open>i < 1\<close> or \<open>i\<close> above the length
  report that the task was not found and leave the tasks as they are. The loop of
  \<^verbatim>\<open>markComplete\<close> does not run when \<^verbatim>\<open>index\<close> is below 1, so \<^verbatim>\<open>current\<close> is still the
  first node: on the one-task list built by \<^verbatim>\<open>addTask\<close>, index 0 marks task 1 as complete
  and reports success. (Indices above the length, and the empty list, do give
  \<open>TaskNotFound\<close> with the list unchanged: \<open>markComplete_beyond\<close>, \<open>markComplete_empty\<close>.)
\<close>

theorem markComplete_index_zero_marks_first:
  "markComplete (addTask [] ''Buy milk'') 0 =
     (MarkedComplete 0, [\<lparr>description = ''Buy milk'', completed = 1\<rparr>])"
  by (simp add: markComplete_def addTask_def createTask_def cstr_def MAX_TASK_LEN_def)

text \<open>
  C2. The specification asks that \<open>delete(i)\<close> with \<open>i < 1\<close> or \<open>i\<close> above the length report
  that the task was not found and remove nothing. For \<^verbatim>\<open>index\<close> below 1 the loop of
  \<^verbatim>\<open>deleteTask\<close> does not run and the node after the first one is unlinked: on a list of
  two tasks, index 0 deletes task 2 and reports success. (Indices above the length, and
  the empty list, do leave the list unchanged: \<open>deleteTask_beyond\<close>, \<open>deleteTask_empty\<close>.)
\<close>

theorem deleteTask_index_zero_removes_second:
  "deleteTask (addTask (addTask [] ''Buy milk'') ''Pay rent'') 0 =
     (TaskDeleted 0, [\<lparr>description = ''Buy milk'', completed = 0\<rparr>])"
  by (simp add: deleteTask_def minus_one_def INT_MIN_def addTask_def createTask_def cstr_def MAX_TASK_LEN_def)

text \<open>
  C3. The specification asks that saving and then loading into a fresh list give back
  every list that \<open>add\<close>, \<open>markComplete\<close> and \<open>delete\<close> can build. The program loses the
  tasks whose description is empty. When the user enters an empty line at the "add"
  prompt, \<^verbatim>\<open>main\<close> passes the empty string to \<^verbatim>\<open>addTask\<close>, which stores the task;
  \<^verbatim>\<open>saveTasks\<close> writes it as the line \<^verbatim>\<open>0,\<close>; and \<^verbatim>\<open>loadTasks\<close> skips that line, because
  \<^verbatim>\<open>%[^\n]\<close> needs at least one byte. (For lists without an empty description the round
  trip holds: \<open>round_trip_nonempty\<close>.)
\<close>

theorem empty_description_lost:
  "run [Add ''\<newline>''] = [\<lparr>description = '''', completed = 0\<rparr>]
   \<and> saveTasks True None (run [Add ''\<newline>'']) = Some ''0,\<newline>''
   \<and> loadTasks (saveTasks True None (run [Add ''\<newline>''])) [] = Some []"
  by (simp add: eval_defs)

text \<open>
  C4. For every list and every description, \<^verbatim>\<open>addTask\<close> returns the old list followed by
  one new task: the length grows by one, the new task is last and has \<^verbatim>\<open>completed = 0\<close>,
  and every task that was there keeps its position and its fields. \<^verbatim>\<open>addTask\<close> has no
  failure branch of its own; the only way out is \<^verbatim>\<open>exit(1)\<close> in \<^verbatim>\<open>createTask\<close> when
  \<^verbatim>\<open>malloc\<close> fails, which the model takes not to happen.
\<close>

theorem addTask_appends_one:
  "addTask head d = head @ [createTask d]
   \<and> length (addTask head d) = length head + 1
   \<and> last (addTask head d) = createTask d
   \<and> completed (last (addTask head d)) = 0
   \<and> take (length head) (addTask head d) = head
   \<and> (\<forall>i < length head. addTask head d ! i = head ! i)"
  by (simp add: addTask_append createTask_def nth_append)

theorem addTask_appends_one_witness:
  "addTask [\<lparr>description = ''a'', completed = 1\<rparr>] ''b''
     = [\<lparr>description = ''a'', completed = 1\<rparr>] @ [createTask ''b'']
   \<and> (0::nat) < length [\<lparr>description = ''a'', completed = 1\<rparr>]
   \<and> addTask [\<lparr>description = ''a'', completed = 1\<rparr>] ''b'' ! 0 = \<lparr>description = ''a'', completed = 1\<rparr>
   \<and> completed (last (addTask [\<lparr>description = ''a'', completed = 1\<rparr>] ''b'')) = 0"
  using addTask_appends_one [of "[\<lparr>description = ''a'', completed = 1\<rparr>]" "''b''"]
  by (simp add: createTask_def)

text \<open>
  C5. For a non-empty list and an index \<open>i\<close> between 1 and the length, \<^verbatim>\<open>deleteTask\<close>
  reports the deletion and returns the list without its \<open>i\<close>-th task: the length drops by
  one, the task at each (1-based) position \<open>j > i\<close> is afterwards at position \<open>j - 1\<close>, and
  the task at each position \<open>j < i\<close> stays where it is.
\<close>

theorem deleteTask_valid_index:
  assumes "head \<noteq> []" and "1 \<le> i" and "i \<le> int (length head)"
  shows "fst (deleteTask head i) = TaskDeleted i
   \<and> snd (deleteTask head i) = take (nat (i - 1)) head @ drop (nat i) head
   \<and> length (snd (deleteTask head i)) = length head - 1
   \<and> (\<forall>j. i < j \<and> j \<le> int (length head) \<longrightarrow>
          snd (deleteTask head i) ! (nat (j - 1) - 1) = head ! nat (j - 1))
   \<and> (\<forall>j. 1 \<le> j \<and> j < i \<longrightarrow> snd (deleteTask head i) ! nat (j - 1) = head ! nat (j - 1))"
proof -
  have d: "deleteTask head i = (TaskDeleted i, take (nat (i - 1)) head @ drop (nat i) head)"
    using assms(2,3) by (rule deleteTask_valid)
  have len: "length (take (nat (i - 1)) head @ drop (nat i) head) = length head - 1"
    using assms(2,3) by simp
  have above: "(take (nat (i - 1)) head @ drop (nat i) head) ! (nat (j - 1) - 1) = head ! nat (j - 1)"
    if "i < j" "j \<le> int (length head)" for j
  proof -
    from that assms(2) have "nat (i - 1) \<le> nat (j - 1) - 1" by simp
    moreover from assms(2,3) have "length (take (nat (i - 1)) head) = nat (i - 1)" by simp
    ultimately have "(take (nat (i - 1)) head @ drop (nat i) head) ! (nat (j - 1) - 1)
        = drop (nat i) head ! (nat (j - 1) - 1 - nat (i - 1))"
      by (simp add: nth_append)
    also from that assms(2) have "nat (j - 1) - 1 - nat (i - 1) = nat (j - 1) - nat i" by simp
    also from that assms(2) have "drop (nat i) head ! (nat (j - 1) - nat i) = head ! nat (j - 1)"
      by simp
    finally show ?thesis .
  qed
  have below: "(take (nat (i - 1)) head @ drop (nat i) head) ! nat (j - 1) = head ! nat (j - 1)"
    if "1 \<le> j" "j < i" for j
    using that assms(3) by (simp add: nth_append)
  from d len above below show ?thesis by simp
qed

theorem deleteTask_valid_index_witness:
  "[createTask ''a'', createTask ''b'', createTask ''c''] \<noteq> []
   \<and> (1::int) \<le> 2 \<and> (2::int) \<le> int (length [createTask ''a'', createTask ''b'', createTask ''c''])
   \<and> deleteTask [createTask ''a'', createTask ''b'', createTask ''c''] 2
        = (TaskDeleted 2, [createTask ''a'', createTask ''c''])"
proof -
  let ?h = "[createTask ''a'', createTask ''b'', createTask ''c'']"
  have h: "?h \<noteq> []" "(1::int) \<le> 2" "(2::int) \<le> int (length ?h)" by simp_all
  from deleteTask_valid_index [OF h]
  have "fst (deleteTask ?h 2) = TaskDeleted 2"
    and "snd (deleteTask ?h 2) = take (nat (2 - 1)) ?h @ drop (nat 2) ?h"
    by simp_all
  then have "deleteTask ?h 2 = (TaskDeleted 2, [createTask ''a'', createTask ''c''])"
    by (simp add: prod_eq_iff)
  with h show ?thesis by simp
qed

text \<open>
  C6 as stated fails for a line that does not fit the buffer of \<^verbatim>\<open>fgets\<close>. The file below
  has three lines. The first, 265 times \<^verbatim>\<open>x\<close> followed by \<^verbatim>\<open>1,b\<close>, is malformed; the other
  two are well-formed. \<^verbatim>\<open>fgets\<close> returns the first 265 bytes, which are skipped, and then
  the rest of that same line, \<^verbatim>\<open>1,b\<close>, which is read as a task: three tasks are loaded.
\<close>

theorem load_long_line_counterexample:
  "sscanf_line (replicate 265 CHR ''x'' @ ''1,b\<newline>'') = ScanFailed
   \<and> sscanf_line ''0,c\<newline>'' = ScanFields 0 ''c''
   \<and> sscanf_line ''1,d\<newline>'' = ScanFields 1 ''d''
   \<and> loadTasks (Some (replicate 265 CHR ''x'' @ ''1,b\<newline>'' @ ''0,c\<newline>'' @ ''1,d\<newline>'')) []
        = Some [\<lparr>description = ''b'', completed = 1\<rparr>,
                \<lparr>description = ''c'', completed = 0\<rparr>,
                \<lparr>description = ''d'', completed = 1\<rparr>]"
proof -
  have x: "replicate 265 CHR ''x'' = CHR ''x'' # replicate 264 CHR ''x''"
    by (simp add: replicate_Suc [symmetric])
  have bad: "sscanf_line (CHR ''x'' # s) = ScanFailed" for s
    by (rule sscanf_line_bad_start) (simp_all add: isspace_def isdigit_def)
  have a: "sscanf_line (replicate 265 CHR ''x'' @ ''1,b\<newline>'') = ScanFailed"
    unfolding x by (simp add: bad)
  have p: "sscanf_line (replicate 265 CHR ''x'') = ScanFailed"
    unfolding x by (rule bad)
  have "load_loop (replicate 265 CHR ''x'' @ ''1,b\<newline>0,c\<newline>1,d\<newline>'') []
      = load_loop ''1,b\<newline>0,c\<newline>1,d\<newline>'' []"
    using _ _ p by (rule load_loop_skip_full) simp_all
  also have "\<dots> = Some [\<lparr>description = ''b'', completed = 1\<rparr>,
      \<lparr>description = ''c'', completed = 0\<rparr>, \<lparr>description = ''d'', completed = 1\<rparr>]"
    by (simp add: eval_defs)
  finally have l: "loadTasks (Some (replicate 265 CHR ''x'' @ ''1,b\<newline>0,c\<newline>1,d\<newline>'')) []
      = Some [\<lparr>description = ''b'', completed = 1\<rparr>,
      \<lparr>description = ''c'', completed = 0\<rparr>, \<lparr>description = ''d'', completed = 1\<rparr>]"
    by (simp add: loadTasks_def)
  have c: "sscanf_line ''0,c\<newline>'' = ScanFields 0 ''c''" "sscanf_line ''1,d\<newline>'' = ScanFields 1 ''d''"
    by (simp_all add: eval_defs)
  from a c l show ?thesis by simp
qed

text \<open>
  C6, amended. \<^verbatim>\<open>loadTasks\<close> with no file to open leaves the empty list empty and is not
  an error. For a file in which every line has at most 264 bytes (so that \<^verbatim>\<open>fgets\<close> reads
  it whole, newline included) and keeps \<^verbatim>\<open>sscanf\<close> defined (the number fits an \<^verbatim>\<open>int\<close>, at
  most 255 bytes follow the comma), \<^verbatim>\<open>loadTasks\<close> into the empty list yields the tasks of
  the well-formed lines, in file order, and skips every other line. In particular, when
  exactly two lines \<open>w1\<close>, \<open>w2\<close> are well-formed, in this order, the result is exactly
  their two tasks, whatever malformed lines stand around them.
\<close>

theorem loadTasks_line_by_line:
  assumes "\<forall>l \<in> set (split_lines bs). length l \<le> 264
             \<and> sscanf_line (l @ [newline]) \<noteq> ScanUndefined"
  shows "loadTasks None [] = Some []
   \<and> loadTasks (Some bs) [] = Some (List.map_filter line_task (split_lines bs))
   \<and> (\<forall>w1 w2. filter (\<lambda>l. line_task l \<noteq> None) (split_lines bs) = [w1, w2] \<longrightarrow>
         loadTasks (Some bs) [] = Some [the (line_task w1), the (line_task w2)])"
proof -
  from assms have "load_loop bs [] = Some ([] @ List.map_filter line_task (split_lines bs))"
    by (rule load_loop_split_lines)
  then have l: "loadTasks (Some bs) [] = Some (List.map_filter line_task (split_lines bs))"
    by (simp add: loadTasks_def)
  moreover have "loadTasks None [] = Some []"
    by (simp add: loadTasks_def)
  ultimately show ?thesis
    by (simp add: map_filter_two)
qed

theorem loadTasks_line_by_line_witness:
  "split_lines ''0,Buy milk\<newline>what is this\<newline>1,Pay rent''
     = [''0,Buy milk'', ''what is this'', ''1,Pay rent'']
   \<and> sscanf_line ''0,Buy milk\<newline>'' = ScanFields 0 ''Buy milk''
   \<and> sscanf_line ''what is this\<newline>'' = ScanFailed
   \<and> sscanf_line ''1,Pay rent\<newline>'' = ScanFields 1 ''Pay rent''
   \<and> filter (\<lambda>l. line_task l \<noteq> None) [''0,Buy milk'', ''what is this'', ''1,Pay rent'']
        = [''0,Buy milk'', ''1,Pay rent'']
   \<and> loadTasks (Some ''0,Buy milk\<newline>what is this\<newline>1,Pay rent'') []
        = Some [\<lparr>description = ''Buy milk'', completed = 0\<rparr>,
                \<lparr>description = ''Pay rent'', completed = 1\<rparr>]"
proof -
  let ?bs = "''0,Buy milk\<newline>what is this\<newline>1,Pay rent''"
  let ?ls = "[''0,Buy milk'', ''what is this'', ''1,Pay rent'']"
  have sp: "split_lines ?bs = ?ls"
    by simp
  have s: "sscanf_line ''0,Buy milk\<newline>'' = ScanFields 0 ''Buy milk''"
    "sscanf_line ''what is this\<newline>'' = ScanFailed"
    "sscanf_line ''1,Pay rent\<newline>'' = ScanFields 1 ''Pay rent''"
    by (simp_all add: eval_defs)
  have h: "\<forall>l \<in> set (split_lines ?bs). length l \<le> 264 \<and> sscanf_line (l @ [newline]) \<noteq> ScanUndefined"
    unfolding sp by (simp add: s)
  have t: "line_task ''0,Buy milk'' = Some \<lparr>description = ''Buy milk'', completed = 0\<rparr>"
    "line_task ''what is this'' = None"
    "line_task ''1,Pay rent'' = Some \<lparr>description = ''Pay rent'', completed = 1\<rparr>"
    by (simp_all add: line_task_def s)
  have f: "filter (\<lambda>l. line_task l \<noteq> None) ?ls = [''0,Buy milk'', ''1,Pay rent'']"
    by (simp add: t)
  from loadTasks_line_by_line [OF h] f
  have "loadTasks (Some ?bs) [] = Some [the (line_task ''0,Buy milk''), the (line_task ''1,Pay rent'')]"
    unfolding sp by blast
  with sp s f t show ?thesis
    by simp
qed

text \<open>
  C7. Starting from the empty list, \<open>add("Buy milk")\<close>, \<open>add("Pay rent")\<close>,
  \<open>markComplete(2)\<close>, \<open>delete(1)\<close> leave exactly one task, \<open>Pay rent\<close>, marked as complete.
\<close>

theorem example_session:
  "snd (deleteTask (snd (markComplete (addTask (addTask [] ''Buy milk'') ''Pay rent'') 2)) 1)
     = [\<lparr>description = ''Pay rent'', completed = 1\<rparr>]"
  by (simp add: deleteTask_def markComplete_def addTask_def createTask_def cstr_def MAX_TASK_LEN_def)

text \<open>
  C8. \<^verbatim>\<open>createTask\<close> keeps the first 255 bytes of the description it is given. If every
  task in the list has a description of at most 255 bytes without a newline, then so
  has every task after each call that \<^verbatim>\<open>main\<close> makes: after "add" (the buffer cut at its
  first newline, then \<^verbatim>\<open>addTask\<close>), after \<^verbatim>\<open>markComplete\<close>, after \<^verbatim>\<open>deleteTask\<close>, and after
  every \<^verbatim>\<open>loadTasks\<close> that returns, which never inserts a description of more than 255
  bytes or with a newline. So this holds of every task at every point of a session,
  which starts with \<^verbatim>\<open>loadTasks\<close> on the empty list. The bound of 255 bytes alone is kept
  by \<^verbatim>\<open>addTask\<close> for every description whatever.
\<close>

theorem description_invariant:
  "description (createTask d) = take 255 (cstr d)
   \<and> ((\<forall>t \<in> set head. short_description t) \<longrightarrow>
         (\<forall>t \<in> set (addTask head d). short_description t))
   \<and> ((\<forall>t \<in> set head. description_ok t) \<longrightarrow>
         (\<forall>t \<in> set (addTask head (cut_at_newline buf)). description_ok t)
       \<and> (\<forall>t \<in> set (snd (markComplete head i)). description_ok t)
       \<and> (\<forall>t \<in> set (snd (deleteTask head j)). description_ok t)
       \<and> (\<forall>t \<in> set (perform head c). description_ok t)
       \<and> (\<forall>head'. loadTasks f head = Some head' \<longrightarrow> (\<forall>t \<in> set head'. description_ok t)))
   \<and> (\<forall>t \<in> set (run calls). description_ok t)
   \<and> (\<forall>head'. session f calls = Some head' \<longrightarrow> (\<forall>t \<in> set head'. description_ok t))"
proof -
  have trunc: "description (createTask d) = take 255 (cstr d)"
    by (simp add: createTask_def MAX_TASK_LEN_def)
  have short: "\<forall>t \<in> set (addTask head d). short_description t"
    if "\<forall>t \<in> set head. short_description t"
    using that by (simp add: addTask_append short_description_createTask)
  have load: "\<forall>t \<in> set head'. description_ok t"
    if "\<forall>t \<in> set head. description_ok t" "loadTasks f head = Some head'" for head head'
    using _ that by (rule loadTasks_pres) (simp add: description_ok_def)
  have ok: "(\<forall>t \<in> set (addTask head (cut_at_newline buf)). description_ok t)
       \<and> (\<forall>t \<in> set (snd (markComplete head i)). description_ok t)
       \<and> (\<forall>t \<in> set (snd (deleteTask head j)). description_ok t)
       \<and> (\<forall>t \<in> set (perform head c). description_ok t)
       \<and> (\<forall>head'. loadTasks f head = Some head' \<longrightarrow> (\<forall>t \<in> set head'. description_ok t))"
    if h: "\<forall>t \<in> set head. description_ok t"
  proof -
    have "\<forall>t \<in> set (addTask head (cut_at_newline buf)). description_ok t"
      using h cut_at_newline_clean by (rule description_ok_addTask)
    moreover have "\<forall>t \<in> set (snd (markComplete head i)). description_ok t"
      using _ h by (rule markComplete_pres) (simp add: description_ok_def)
    moreover have "\<forall>t \<in> set (snd (deleteTask head j)). description_ok t"
      using h deleteTask_subset [of head j] by auto
    moreover have "\<forall>t \<in> set (perform head c). description_ok t"
      using h by (rule description_ok_perform)
    ultimately show ?thesis using load [OF h] by blast
  qed
  have sess: "\<forall>t \<in> set head'. description_ok t" if "session f calls = Some head'" for head'
  proof -
    from that obtain head0 where l: "loadTasks f [] = Some head0" and r: "head' = foldl perform head0 calls"
      by (auto simp: session_def)
    from _ l have "\<forall>t \<in> set head0. description_ok t"
      by (rule load) simp
    then show ?thesis
      unfolding r by (rule description_ok_foldl)
  qed
  from trunc short ok description_ok_run [of calls] sess show ?thesis
    by blast
qed

theorem description_invariant_witness:
  "description_ok \<lparr>description = ''Buy milk'', completed = 0\<rparr>
   \<and> short_description \<lparr>description = ''Buy milk'', completed = 0\<rparr>
   \<and> perform [\<lparr>description = ''Buy milk'', completed = 0\<rparr>] (Add ''Pay rent\<newline>'')
        = [\<lparr>description = ''Buy milk'', completed = 0\<rparr>, \<lparr>description = ''Pay rent'', completed = 0\<rparr>]
   \<and> description_ok \<lparr>description = ''Pay rent'', completed = 0\<rparr>
   \<and> loadTasks (Some ''1,Call home\<newline>'') [\<lparr>description = ''Buy milk'', completed = 0\<rparr>]
        = Some [\<lparr>description = ''Buy milk'', completed = 0\<rparr>, \<lparr>description = ''Call home'', completed = 1\<rparr>]
   \<and> description_ok \<lparr>description = ''Call home'', completed = 1\<rparr>
   \<and> session (Some ''1,Call home\<newline>'') [Add ''Pay rent\<newline>'', Delete 1]
        = Some [\<lparr>description = ''Pay rent'', completed = 0\<rparr>]"
proof -
  let ?head = "[\<lparr>description = ''Buy milk'', completed = 0\<rparr>]"
  let ?f = "Some ''1,Call home\<newline>''"
  let ?calls = "[Add ''Pay rent\<newline>'', Delete 1]"
  have h: "\<forall>t \<in> set ?head. description_ok t" "\<forall>t \<in> set ?head. short_description t"
    by (simp_all add: description_ok_def short_description_def)
  have a: "perform ?head (Add ''Pay rent\<newline>'')
      = [\<lparr>description = ''Buy milk'', completed = 0\<rparr>, \<lparr>description = ''Pay rent'', completed = 0\<rparr>]"
    by (simp add: addTask_def createTask_def cut_at_newline_def cstr_def MAX_TASK_LEN_def)
  have l: "loadTasks ?f ?head
      = Some [\<lparr>description = ''Buy milk'', completed = 0\<rparr>, \<lparr>description = ''Call home'', completed = 1\<rparr>]"
    by (simp add: eval_defs)
  have s: "session ?f ?calls = Some [\<lparr>description = ''Pay rent'', completed = 0\<rparr>]"
    by (simp add: session_def eval_defs)
  from description_invariant [of "''Pay rent''" ?head "''Pay rent\<newline>''" 1 1 "Add ''Pay rent\<newline>''" ?f ?calls] h
  have "\<forall>t \<in> set (perform ?head (Add ''Pay rent\<newline>'')). description_ok t"
    and "\<forall>head'. loadTasks ?f ?head = Some head' \<longrightarrow> (\<forall>t \<in> set head'. description_ok t)"
    and "\<forall>head'. session ?f ?calls = Some head' \<longrightarrow> (\<forall>t \<in> set head'. description_ok t)"
    by blast+
  with h a l s show ?thesis
    by simp
qed

text \<open>
  C9. \<^verbatim>\<open>loadTasks\<close> on any list, the non-empty ones included, returns that list followed
  by the tasks it would load into the empty list: the tasks that were there keep their
  positions and fields, and the tasks read from the file come after them. For a file
  whose lines fit the buffer these are the tasks of the well-formed lines, in file order.
  (Where \<^verbatim>\<open>sscanf\<close> is undefined on the file, it is so whatever the list holds.)
\<close>

theorem loadTasks_appends:
  "loadTasks f head = map_option ((@) head) (loadTasks f [])
   \<and> (\<forall>head'. loadTasks f head = Some head' \<longrightarrow>
         take (length head) head' = head \<and> loadTasks f [] = Some (drop (length head) head'))
   \<and> ((\<forall>l \<in> set (split_lines bs). length l \<le> 264 \<and> sscanf_line (l @ [newline]) \<noteq> ScanUndefined) \<longrightarrow>
         loadTasks (Some bs) head = Some (head @ List.map_filter line_task (split_lines bs)))"
proof -
  have eq: "loadTasks f head = map_option ((@) head) (loadTasks f [])"
  proof (cases f)
    case None
    then show ?thesis by (simp add: loadTasks_def)
  next
    case (Some bs)
    then show ?thesis by (simp add: loadTasks_def load_loop_append [of bs head])
  qed
  have frame: "take (length head) head' = head \<and> loadTasks f [] = Some (drop (length head) head')"
    if "loadTasks f head = Some head'" for head'
    using that eq by (cases "loadTasks f []") auto
  have lines: "loadTasks (Some bs) head = Some (head @ List.map_filter line_task (split_lines bs))"
    if "\<forall>l \<in> set (split_lines bs). length l \<le> 264 \<and> sscanf_line (l @ [newline]) \<noteq> ScanUndefined"
    using that by (simp add: loadTasks_def load_loop_split_lines)
  from eq frame lines show ?thesis
    by blast
qed

theorem loadTasks_appends_witness:
  "loadTasks (Some ''0,a\<newline>junk\<newline>1,b\<newline>'') [\<lparr>description = ''old'', completed = 1\<rparr>]
     = Some [\<lparr>description = ''old'', completed = 1\<rparr>,
             \<lparr>description = ''a'', completed = 0\<rparr>, \<lparr>description = ''b'', completed = 1\<rparr>]
   \<and> take (length [\<lparr>description = ''old'', completed = 1\<rparr>])
        [\<lparr>description = ''old'', completed = 1\<rparr>,
         \<lparr>description = ''a'', completed = 0\<rparr>, \<lparr>description = ''b'', completed = 1\<rparr>]
       = [\<lparr>description = ''old'', completed = 1\<rparr>]
   \<and> loadTasks (Some ''0,a\<newline>junk\<newline>1,b\<newline>'') []
       = Some [\<lparr>description = ''a'', completed = 0\<rparr>, \<lparr>description = ''b'', completed = 1\<rparr>]"
proof -
  let ?f = "Some ''0,a\<newline>junk\<newline>1,b\<newline>''"
  let ?head = "[\<lparr>description = ''old'', completed = 1\<rparr>]"
  let ?new = "[\<lparr>description = ''a'', completed = 0\<rparr>, \<lparr>description = ''b'', completed = 1\<rparr>]"
  have l: "loadTasks ?f ?head = Some (?head @ ?new)"
    by (simp add: eval_defs)
  from loadTasks_appends [of ?f ?head "[]"] l
  have "take (length ?head) (?head @ ?new) = ?head \<and> loadTasks ?f [] = Some (drop (length ?head) (?head @ ?new))"
    by blast
  with l show ?thesis
    by simp
qed

text \<open>
  C10 as stated fails for a line that starts with white space: \<^verbatim>\<open>%d\<close> skips it, so the
  line \<^verbatim>\<open> 1,a\<close> is accepted, and loaded as a completed task, although its first byte is a
  blank and it does not begin with a decimal integer.
\<close>

theorem leading_space_counterexample:
  "sscanf_line '' 1,a\<newline>'' = ScanFields 1 ''a''
   \<and> loadTasks (Some '' 1,a\<newline>'') [] = Some [\<lparr>description = ''a'', completed = 1\<rparr>]
   \<and> hd '' 1,a\<newline>'' = CHR '' '' \<and> \<not> isdigit (CHR '' '')
   \<and> \<not> (\<exists>sg ds d rest. line_shape [] sg ds d rest '' 1,a\<newline>'')"
proof -
  have "\<not> line_shape [] sg ds d rest '' 1,a\<newline>''" for sg ds d rest
  proof
    assume s: "line_shape [] sg ds d rest '' 1,a\<newline>''"
    then obtain c ds' where ds: "ds = c # ds'" "isdigit c"
      by (cases ds) (auto simp: line_shape_def)
    from s have "sg = [] \<or> sg = ''+'' \<or> sg = ''-''"
      by (simp add: line_shape_def)
    moreover from s have "'' 1,a\<newline>'' = sg @ ds @ '','' @ d @ rest"
      by (simp add: line_shape_def)
    ultimately show False
      using ds by (auto simp: isdigit_def)
  qed
  moreover have "sscanf_line '' 1,a\<newline>'' = ScanFields 1 ''a''"
    by (simp add: eval_defs)
  moreover have "loadTasks (Some '' 1,a\<newline>'') [] = Some [\<lparr>description = ''a'', completed = 1\<rparr>]"
    by (simp add: eval_defs)
  moreover have "hd '' 1,a\<newline>'' = CHR '' ''" "\<not> isdigit (CHR '' '')"
    by (simp_all add: isdigit_def)
  ultimately show ?thesis
    by blast
qed

text \<open>
  C10, amended. Take a buffer on which \<^verbatim>\<open>sscanf\<close> is defined, that is, the number it
  reads fits an \<^verbatim>\<open>int\<close> and at most 255 bytes are stored in \<^verbatim>\<open>description\<close>; nothing is said
  of the other buffers. \<^verbatim>\<open>sscanf\<close> fills both fields from it exactly when the buffer (up to
  its first NUL) consists of optional white space, an optional sign, one or more decimal
  digits, a comma, and at least one byte other than newline, up to a newline or the end
  of the buffer. \<^verbatim>\<open>loadTasks\<close> then appends a task with these bytes as description, and its
  flag is 1 if and only if the number is not 0 (so 2 and -1 count as completed); every
  other such buffer is skipped. A line of at most 264 bytes is read into the buffer whole.
\<close>

theorem sscanf_line_accepts:
  assumes "sscanf_line b \<noteq> ScanUndefined"
  shows "(sscanf_line b = ScanFields v d) =
     (\<exists>ws sg ds rest. line_shape ws sg ds d rest (cstr b) \<and> v = signed_value (sg = ''-'') ds)
   \<and> (sscanf_line b = ScanFields v d \<longrightarrow>
        load_line head b = Some (head @ [\<lparr>description = d, completed = (if v \<noteq> 0 then 1 else 0)\<rparr>]))
   \<and> (\<not> (\<exists>ws sg ds d rest. line_shape ws sg ds d rest (cstr b)) \<longrightarrow> load_line head b = Some head)
   \<and> (newline \<notin> set l \<and> length l \<le> 264 \<longrightarrow>
        loadTasks (Some (l @ [newline])) head = load_line head (l @ [newline]))"
proof -
  have shape: "\<exists>ws sg ds rest. line_shape ws sg ds d rest (cstr b) \<and> v = signed_value (sg = ''-'') ds"
    if "sscanf_line b = ScanFields v d" for v d
  proof -
    from that obtain ws sg ds rest where "line_shape ws sg ds d rest (cstr b)"
      "v = signed_value (sg = ''-'') ds" "INT_MIN \<le> v" "v \<le> INT_MAX" "length d < MAX_TASK_LEN"
      by (rule sscanf_line_Fields)
    then show ?thesis by blast
  qed
  have fields: "sscanf_line b = ScanFields v d"
    if "line_shape ws sg ds d rest (cstr b)" "v = signed_value (sg = ''-'') ds" for ws sg ds rest v d
    using sscanf_line_shape [OF that(1)] that(2) assms by (simp split: if_splits)
  have iff: "(sscanf_line b = ScanFields v d) =
     (\<exists>ws sg ds rest. line_shape ws sg ds d rest (cstr b) \<and> v = signed_value (sg = ''-'') ds)"
    using shape fields by blast
  have skip: "load_line head b = Some head"
    if "\<not> (\<exists>ws sg ds d rest. line_shape ws sg ds d rest (cstr b))"
  proof (cases "sscanf_line b")
    case ScanUndefined
    with assms show ?thesis by simp
  next
    case ScanFailed
    then show ?thesis by (rule load_line_Failed)
  next
    case (ScanFields v d)
    with shape that show ?thesis by blast
  qed
  from iff skip load_line_Fields [of b v d head] load_single_line [of l head]
  show ?thesis
    by blast
qed

theorem sscanf_line_accepts_witness:
  "cstr ''  -1,Pay rent\<newline>'' = ''  '' @ ''-'' @ ''1'' @ '','' @ ''Pay rent'' @ ''\<newline>''
   \<and> signed_value True ''1'' = - 1
   \<and> sscanf_line ''  -1,Pay rent\<newline>'' = ScanFields (- 1) ''Pay rent''
   \<and> loadTasks (Some ''  -1,Pay rent\<newline>'') [] = Some [\<lparr>description = ''Pay rent'', completed = 1\<rparr>]
   \<and> sscanf_line ''2,x'' = ScanFields 2 ''x''
   \<and> load_line [] ''2,x'' = Some [\<lparr>description = ''x'', completed = 1\<rparr>]
   \<and> sscanf_line ''0,x'' = ScanFields 0 ''x''
   \<and> load_line [] ''0,x'' = Some [\<lparr>description = ''x'', completed = 0\<rparr>]"
proof -
  let ?b = "''  -1,Pay rent\<newline>''"
  have e: "sscanf_line ?b = ScanFields (- 1) ''Pay rent''" "sscanf_line ''2,x'' = ScanFields 2 ''x''"
    "sscanf_line ''0,x'' = ScanFields 0 ''x''"
    by (simp_all add: eval_defs)
  then have d: "sscanf_line ?b \<noteq> ScanUndefined" "sscanf_line ''2,x'' \<noteq> ScanUndefined"
    "sscanf_line ''0,x'' \<noteq> ScanUndefined"
    by simp_all
  have shape: "line_shape ''  '' ''-'' ''1'' ''Pay rent'' ''\<newline>'' (cstr ?b)"
    by (simp add: line_shape_def cstr_def isspace_def isdigit_def)
  have v: "signed_value (''-'' = ''-'') ''1'' = - 1"
    by (simp add: signed_value_def decimal_def digit_val_def)
  from shape v have "\<exists>ws sg ds rest. line_shape ws sg ds ''Pay rent'' rest (cstr ?b)
      \<and> - 1 = signed_value (sg = ''-'') ds"
    by (intro exI [of _ "''  ''"] exI [of _ "''-''"] exI [of _ "''1''"] exI [of _ "''\<newline>''"]) simp
  with sscanf_line_accepts [OF d(1), of "- 1" "''Pay rent''" "[]" "''  -1,Pay rent''"]
  have "load_line [] ?b = Some ([] @ [\<lparr>description = ''Pay rent'', completed = (if (- 1 :: int) \<noteq> 0 then 1 else 0)\<rparr>])"
    and "loadTasks (Some (''  -1,Pay rent'' @ [newline])) [] = load_line [] (''  -1,Pay rent'' @ [newline])"
    by simp_all
  then have l: "loadTasks (Some ?b) [] = Some [\<lparr>description = ''Pay rent'', completed = 1\<rparr>]"
    by simp
  from sscanf_line_accepts [OF d(2), of 2 "''x''" "[]" "[]"] e(2)
  have two: "load_line [] ''2,x'' = Some [\<lparr>description = ''x'', completed = 1\<rparr>]"
    by simp
  from sscanf_line_accepts [OF d(3), of 0 "''x''" "[]" "[]"] e(3)
  have zero: "load_line [] ''0,x'' = Some [\<lparr>description = ''x'', completed = 0\<rparr>]"
    by simp
  have "cstr ?b = ''  '' @ ''-'' @ ''1'' @ '','' @ ''Pay rent'' @ ''\<newline>''"
    by (simp add: cstr_def)
  with v e l two zero show ?thesis
    by simp
qed

end
